theory Spec2Isabelle
  imports Main
begin

section \<open>Representation\<close>

text \<open>
  The module \<^verbatim>\<open>dlinkedlist.c\<close> keeps a pool of heap nodes linked in both directions and a
  container struct with four node pointers and two counters. A node pointer is an address
  or \<^verbatim>\<open>NULL\<close> (\<open>None\<close>); the payload \<^verbatim>\<open>void *elem\<close> is an optional value, \<open>None\<close> being the
  null payload. The node heap is explicit: a partial map from addresses to nodes together
  with the next address \<^verbatim>\<open>malloc\<close> hands out. Allocation itself never fails in this model.
\<close>

type_synonym addr = nat
type_synonym Node_T = "addr option"

record 'a node_t =
  elem :: "'a option"
  next_n :: Node_T
  prev_n :: Node_T

record dlinkedlist_t =
  front :: Node_T
  tail :: Node_T
  list_start :: Node_T
  list_end :: Node_T
  capacity :: int
  size_l :: int

record 'a heap =
  cells :: "addr \<rightharpoonup> 'a node_t"
  brk :: addr

text \<open>
  Every way a call can stop without returning: an \<^verbatim>\<open>assert\<close> on an argument
  (\<open>Precondition_violated\<close>), the \<^verbatim>\<open>assert(node != NULL)\<close> on a node the code has just
  computed (\<open>Node_is_null\<close>), a read or write through a pointer that is null or not
  allocated (\<open>Null_dereference\<close>), and an increment of an \<^verbatim>\<open>int\<close> that already holds
  \<^verbatim>\<open>INT_MAX\<close> (\<open>Signed_overflow\<close>).
\<close>

datatype error = Precondition_violated | Node_is_null | Null_dereference | Signed_overflow

definition INT_MAX :: int where
  "INT_MAX = 2147483647"

definition heap0 :: "'a heap" where
  "heap0 = \<lparr>cells = Map.empty, brk = 0\<rparr>"

definition load :: "'a heap \<Rightarrow> Node_T \<Rightarrow> error + 'a node_t" where
  "load h p =
     (case p of
        None \<Rightarrow> Inl Null_dereference
      | Some a \<Rightarrow> (case cells h a of None \<Rightarrow> Inl Null_dereference | Some n \<Rightarrow> Inr n))"

definition store :: "'a heap \<Rightarrow> Node_T \<Rightarrow> ('a node_t \<Rightarrow> 'a node_t) \<Rightarrow> error + 'a heap" where
  "store h p f =
     (case p of
        None \<Rightarrow> Inl Null_dereference
      | Some a \<Rightarrow>
          (case cells h a of
             None \<Rightarrow> Inl Null_dereference
           | Some n \<Rightarrow> Inr (h\<lparr>cells := (cells h)(a \<mapsto> f n)\<rparr>)))"

section \<open>Helper functions of the module\<close>

text \<open>
  The container handle itself is always valid here, so the asserts \<^verbatim>\<open>list != NULL\<close> are
  not branches of the model. \<^verbatim>\<open>DLinkedList_free\<close>, \<^verbatim>\<open>Node_free\<close>, \<^verbatim>\<open>remove_node\<close> and
  \<^verbatim>\<open>print\<close> are called by none of the functions below and are left out.
\<close>

definition Node_new :: "'a heap \<Rightarrow> Node_T \<Rightarrow> Node_T \<Rightarrow> 'a option \<Rightarrow> 'a heap \<times> Node_T" where
  "Node_new h pv nx e =
     (h\<lparr>cells := (cells h)(brk h \<mapsto> \<lparr>elem = e, next_n = nx, prev_n = pv\<rparr>), brk := Suc (brk h)\<rparr>,
      Some (brk h))"

text \<open>The \<^verbatim>\<open>for (i = hint - 2; i >= 0; i--)\<close> loop of \<^verbatim>\<open>malloc_hint\<close>.\<close>

function malloc_hint_loop :: "'a heap \<Rightarrow> Node_T \<Rightarrow> int \<Rightarrow> error + ('a heap \<times> Node_T)" where
  "malloc_hint_loop h node i =
     (if i \<ge> 0 then
        (case Node_new h None node None of
           (h1, temp) \<Rightarrow>
             (case store h1 node (\<lambda>n. n\<lparr>prev_n := temp\<rparr>) of
                Inl x \<Rightarrow> Inl x
              | Inr h2 \<Rightarrow> malloc_hint_loop h2 temp (i - 1)))
      else Inr (h, node))"
  by pat_completeness auto
termination
  by (relation "measure (\<lambda>(h, node, i). nat (i + 1))") auto

definition malloc_hint ::
  "'a heap \<Rightarrow> dlinkedlist_t \<Rightarrow> int \<Rightarrow> error + ('a heap \<times> dlinkedlist_t \<times> Node_T)" where
  "malloc_hint h l hint =
     (if \<not> hint \<ge> 0 then Inl Precondition_violated
      else if \<not> hint < INT_MAX then Inl Precondition_violated
      else
        (case Node_new h None None None of
           (h1, node) \<Rightarrow>
             (let l1 = l\<lparr>tail := node\<rparr> in
              if hint > 1 then
                (case malloc_hint_loop h1 node (hint - 2) of
                   Inl x \<Rightarrow> Inl x
                 | Inr (h2, node') \<Rightarrow> Inr (h2, l1, node'))
              else Inr (h1, l1, node))))"

text \<open>The forward and the backward walk of \<^verbatim>\<open>split_search\<close>, one link per iteration.\<close>

function search_fwd :: "'a heap \<Rightarrow> Node_T \<Rightarrow> int \<Rightarrow> int \<Rightarrow> error + Node_T" where
  "search_fwd h node i index =
     (if i < index then
        (case load h node of
           Inl x \<Rightarrow> Inl x
         | Inr n \<Rightarrow> search_fwd h (next_n n) (i + 1) index)
      else Inr node)"
  by pat_completeness auto
termination
  by (relation "measure (\<lambda>(h, node, i, index). nat (index - i))") auto

function search_bwd :: "'a heap \<Rightarrow> Node_T \<Rightarrow> int \<Rightarrow> int \<Rightarrow> error + Node_T" where
  "search_bwd h node i index =
     (if i > index then
        (case load h node of
           Inl x \<Rightarrow> Inl x
         | Inr n \<Rightarrow> search_bwd h (prev_n n) (i - 1) index)
      else Inr node)"
  by pat_completeness auto
termination
  by (relation "measure (\<lambda>(h, node, i, index). nat (i - index))") auto

text \<open>
  \<^verbatim>\<open>midpoint = list->size / 2\<close> is reached only with \<open>0 \<le> index < size\<close>, where C's
  truncating division and \<open>div\<close> agree.
\<close>

definition split_search :: "'a heap \<Rightarrow> dlinkedlist_t \<Rightarrow> int \<Rightarrow> error + Node_T" where
  "split_search h l index =
     (if \<not> index \<ge> 0 then Inl Precondition_violated
      else if \<not> index < size_l l then Inl Precondition_violated
      else
        (let midpoint = size_l l div 2 in
         if index < midpoint then search_fwd h (list_start l) 0 index
         else search_bwd h (list_end l) (size_l l - 1) index))"

definition search :: "'a heap \<Rightarrow> dlinkedlist_t \<Rightarrow> int \<Rightarrow> error + Node_T" where
  "search h l index =
     (if \<not> index \<ge> 0 then Inl Precondition_violated
      else if \<not> index < size_l l then Inl Precondition_violated
      else if index = 0 then Inr (list_start l)
      else if index = size_l l - 1 then Inr (list_end l)
      else split_search h l index)"

section \<open>Public functions\<close>

text \<open>
  In \<^verbatim>\<open>DLinkedList_new\<close> the pointer fields that the C code has not assigned yet are
  written as \<^verbatim>\<open>NULL\<close>; all of them are assigned before the function returns.
\<close>

definition DLinkedList_new :: "'a heap \<Rightarrow> int \<Rightarrow> error + ('a heap \<times> dlinkedlist_t)" where
  "DLinkedList_new h hint0 =
     (if \<not> hint0 \<ge> 0 then Inl Precondition_violated
      else if \<not> hint0 < INT_MAX then Inl Precondition_violated
      else
        (let hint = (if hint0 = 0 then hint0 + 1 else hint0);
             l = \<lparr>front = None, tail = None, list_start = None, list_end = None,
                  capacity = hint, size_l = 0\<rparr>
         in case malloc_hint h l hint of
              Inl x \<Rightarrow> Inl x
            | Inr (h1, l1, node) \<Rightarrow>
                Inr (h1, l1\<lparr>front := node, list_start := node, list_end := node\<rparr>)))"

definition DLinkedList_length :: "dlinkedlist_t \<Rightarrow> int" where
  "DLinkedList_length l = size_l l"

definition DLinkedList_get :: "'a heap \<Rightarrow> dlinkedlist_t \<Rightarrow> int \<Rightarrow> error + 'a option" where
  "DLinkedList_get h l index =
     (if \<not> index \<ge> 0 then Inl Precondition_violated
      else if \<not> index < size_l l then Inl Precondition_violated
      else if size_l l = 0 then Inr None
      else
        (case search h l index of
           Inl x \<Rightarrow> Inl x
         | Inr node \<Rightarrow>
             if node = None then Inl Node_is_null
             else (case load h node of Inl x \<Rightarrow> Inl x | Inr n \<Rightarrow> Inr (elem n))))"

definition DLinkedList_last :: "'a heap \<Rightarrow> dlinkedlist_t \<Rightarrow> error + 'a option" where
  "DLinkedList_last h l =
     (if size_l l = 0 then Inr None
      else (case load h (list_end l) of Inl x \<Rightarrow> Inl x | Inr n \<Rightarrow> Inr (elem n)))"

definition DLinkedList_first :: "'a heap \<Rightarrow> dlinkedlist_t \<Rightarrow> error + 'a option" where
  "DLinkedList_first h l =
     (if size_l l = 0 then Inr None
      else (case load h (list_start l) of Inl x \<Rightarrow> Inl x | Inr n \<Rightarrow> Inr (elem n)))"

text \<open>\<^verbatim>\<open>(list->size)++\<close>, the last statement of both insertions.\<close>

definition size_incr :: "'a heap \<times> dlinkedlist_t \<Rightarrow> error + ('a heap \<times> dlinkedlist_t)" where
  "size_incr s =
     (case s of
        (h, l) \<Rightarrow>
          if size_l l = INT_MAX then Inl Signed_overflow
          else Inr (h, l\<lparr>size_l := size_l l + 1\<rparr>))"

definition DLinkedList_append ::
  "'a heap \<Rightarrow> dlinkedlist_t \<Rightarrow> 'a option \<Rightarrow> error + ('a heap \<times> dlinkedlist_t)" where
  "DLinkedList_append h l e =
     (case
        (if size_l l = 0 then
           (case store h (tail l) (\<lambda>n. n\<lparr>elem := e\<rparr>) of
              Inl x \<Rightarrow> Inl x
            | Inr h1 \<Rightarrow> Inr (h1, l))
         else if size_l l = capacity l then
           (case Node_new h (tail l) None e of
              (h1, node) \<Rightarrow>
                if node = None then Inl Node_is_null
                else
                  (case store h1 (tail l) (\<lambda>n. n\<lparr>next_n := node\<rparr>) of
                     Inl x \<Rightarrow> Inl x
                   | Inr h2 \<Rightarrow>
                       (let l1 = l\<lparr>tail := node\<rparr> in
                        if capacity l1 = INT_MAX then Inl Signed_overflow
                        else
                          (let l2 = l1\<lparr>capacity := capacity l1 + 1\<rparr> in
                           case load h2 (list_end l2) of
                             Inl x \<Rightarrow> Inl x
                           | Inr n \<Rightarrow> Inr (h2, l2\<lparr>list_end := next_n n\<rparr>)))))
         else
           (case load h (list_end l) of
              Inl x \<Rightarrow> Inl x
            | Inr n \<Rightarrow>
                (let node = next_n n in
                 if node = None then Inl Node_is_null
                 else
                   (case store h node (\<lambda>m. m\<lparr>elem := e\<rparr>) of
                      Inl x \<Rightarrow> Inl x
                    | Inr h1 \<Rightarrow>
                        (case load h1 (list_end l) of
                           Inl x \<Rightarrow> Inl x
                         | Inr n' \<Rightarrow> Inr (h1, l\<lparr>list_end := next_n n'\<rparr>))))))
      of
        Inl x \<Rightarrow> Inl x
      | Inr s \<Rightarrow> size_incr s)"

definition DLinkedList_prepend ::
  "'a heap \<Rightarrow> dlinkedlist_t \<Rightarrow> 'a option \<Rightarrow> error + ('a heap \<times> dlinkedlist_t)" where
  "DLinkedList_prepend h l e =
     (case
        (if size_l l = 0 then
           (case store h (front l) (\<lambda>n. n\<lparr>elem := e\<rparr>) of
              Inl x \<Rightarrow> Inl x
            | Inr h1 \<Rightarrow> Inr (h1, l))
         else if size_l l = capacity l then
           (case Node_new h None (front l) e of
              (h1, node) \<Rightarrow>
                if node = None then Inl Node_is_null
                else
                  (case store h1 (front l) (\<lambda>n. n\<lparr>prev_n := node\<rparr>) of
                     Inl x \<Rightarrow> Inl x
                   | Inr h2 \<Rightarrow>
                       (let l1 = l\<lparr>front := node\<rparr> in
                        if capacity l1 = INT_MAX then Inl Signed_overflow
                        else
                          (let l2 = l1\<lparr>capacity := capacity l1 + 1\<rparr> in
                           case load h2 (list_start l2) of
                             Inl x \<Rightarrow> Inl x
                           | Inr n \<Rightarrow> Inr (h2, l2\<lparr>list_start := prev_n n\<rparr>)))))
         else
           (case load h (list_start l) of
              Inl x \<Rightarrow> Inl x
            | Inr n \<Rightarrow>
                (let node = prev_n n in
                 if node = None then Inl Node_is_null
                 else
                   (case store h node (\<lambda>m. m\<lparr>elem := e\<rparr>) of
                      Inl x \<Rightarrow> Inl x
                    | Inr h1 \<Rightarrow>
                        (case load h1 (list_start l) of
                           Inl x \<Rightarrow> Inl x
                         | Inr n' \<Rightarrow> Inr (h1, l\<lparr>list_start := prev_n n'\<rparr>))))))
      of
        Inl x \<Rightarrow> Inl x
      | Inr s \<Rightarrow> size_incr s)"

definition DLinkedList_set ::
  "'a heap \<Rightarrow> dlinkedlist_t \<Rightarrow> 'a option \<Rightarrow> int \<Rightarrow> error + ('a heap \<times> dlinkedlist_t)" where
  "DLinkedList_set h l e index =
     (if \<not> index \<ge> 0 then Inl Precondition_violated
      else if \<not> index \<le> size_l l then Inl Precondition_violated
      else if index = size_l l then DLinkedList_append h l e
      else
        (case search h l index of
           Inl x \<Rightarrow> Inl x
         | Inr node \<Rightarrow>
             if node = None then Inl Node_is_null
             else
               (case store h node (\<lambda>n. n\<lparr>elem := e\<rparr>) of
                  Inl x \<Rightarrow> Inl x
                | Inr h1 \<Rightarrow> Inr (h1, l))))"

definition DLinkedList_remove :: "'a heap \<Rightarrow> dlinkedlist_t \<Rightarrow> int \<Rightarrow> 'a heap \<times> dlinkedlist_t" where
  "DLinkedList_remove h l index = (h, l)"

definition DLinkedList_removehi :: "'a heap \<Rightarrow> dlinkedlist_t \<Rightarrow> 'a heap \<times> dlinkedlist_t" where
  "DLinkedList_removehi h l = (h, l)"

definition DLinkedList_removelo :: "'a heap \<Rightarrow> dlinkedlist_t \<Rightarrow> 'a heap \<times> dlinkedlist_t" where
  "DLinkedList_removelo h l = (h, l)"

section \<open>Sequences of public calls\<close>

text \<open>
  A client program is a list of calls on one container. A call that aborts ends the
  program, so no state follows it; the queries leave the state as it is.
\<close>

datatype 'a call =
    Append "'a option"
  | Prepend "'a option"
  | Set "'a option" int
  | Get int
  | First
  | Last
  | Length
  | Remove int
  | RemoveHi
  | RemoveLo

fun exec :: "'a call \<Rightarrow> 'a heap \<times> dlinkedlist_t \<Rightarrow> error + ('a heap \<times> dlinkedlist_t)" where
  "exec (Append e) (h, l) = DLinkedList_append h l e"
| "exec (Prepend e) (h, l) = DLinkedList_prepend h l e"
| "exec (Set e i) (h, l) = DLinkedList_set h l e i"
| "exec (Get i) (h, l) =
     (case DLinkedList_get h l i of Inl x \<Rightarrow> Inl x | Inr v \<Rightarrow> Inr (h, l))"
| "exec First (h, l) =
     (case DLinkedList_first h l of Inl x \<Rightarrow> Inl x | Inr v \<Rightarrow> Inr (h, l))"
| "exec Last (h, l) =
     (case DLinkedList_last h l of Inl x \<Rightarrow> Inl x | Inr v \<Rightarrow> Inr (h, l))"
| "exec Length (h, l) = Inr (h, l)"
| "exec (Remove i) (h, l) = Inr (DLinkedList_remove h l i)"
| "exec RemoveHi (h, l) = Inr (DLinkedList_removehi h l)"
| "exec RemoveLo (h, l) = Inr (DLinkedList_removelo h l)"

fun run :: "'a call list \<Rightarrow> 'a heap \<times> dlinkedlist_t \<Rightarrow> error + ('a heap \<times> dlinkedlist_t)" where
  "run [] s = Inr s"
| "run (c # cs) s = (case exec c s of Inl x \<Rightarrow> Inl x | Inr s' \<Rightarrow> run cs s')"

definition create_run :: "int \<Rightarrow> 'a call list \<Rightarrow> error + ('a heap \<times> dlinkedlist_t)" where
  "create_run hint cs =
     (case DLinkedList_new heap0 hint of Inl x \<Rightarrow> Inl x | Inr s \<Rightarrow> run cs s)"

section \<open>The increments as compiled\<close>

text \<open>
  C leaves \<^verbatim>\<open>x++\<close> undefined when \<open>x\<close> holds \<^verbatim>\<open>INT_MAX\<close>, and the functions above stop there.
  The source has no check before \<^verbatim>\<open>(list->capacity)++\<close> and \<^verbatim>\<open>(list->size)++\<close>; compiled
  for a 32-bit two's complement \<^verbatim>\<open>int\<close>, the increment of \<^verbatim>\<open>INT_MAX\<close> gives \<^verbatim>\<open>INT_MIN\<close> and the
  call returns. The functions below are the insertions with that increment and are
  otherwise the same text; every other function has no increment and is shared.
\<close>

definition INT_MIN :: int where
  "INT_MIN = - 2147483648"

definition int_incr :: "int \<Rightarrow> int" where
  "int_incr x = (if x = INT_MAX then INT_MIN else x + 1)"

definition DLinkedList_append_wrap ::
  "'a heap \<Rightarrow> dlinkedlist_t \<Rightarrow> 'a option \<Rightarrow> error + ('a heap \<times> dlinkedlist_t)" where
  "DLinkedList_append_wrap h l e =
     (case
        (if size_l l = 0 then
           (case store h (tail l) (\<lambda>n. n\<lparr>elem := e\<rparr>) of
              Inl x \<Rightarrow> Inl x
            | Inr h1 \<Rightarrow> Inr (h1, l))
         else if size_l l = capacity l then
           (case Node_new h (tail l) None e of
              (h1, node) \<Rightarrow>
                if node = None then Inl Node_is_null
                else
                  (case store h1 (tail l) (\<lambda>n. n\<lparr>next_n := node\<rparr>) of
                     Inl x \<Rightarrow> Inl x
                   | Inr h2 \<Rightarrow>
                       (let l1 = l\<lparr>tail := node\<rparr>;
                            l2 = l1\<lparr>capacity := int_incr (capacity l1)\<rparr>
                        in case load h2 (list_end l2) of
                             Inl x \<Rightarrow> Inl x
                           | Inr n \<Rightarrow> Inr (h2, l2\<lparr>list_end := next_n n\<rparr>))))
         else
           (case load h (list_end l) of
              Inl x \<Rightarrow> Inl x
            | Inr n \<Rightarrow>
                (let node = next_n n in
                 if node = None then Inl Node_is_null
                 else
                   (case store h node (\<lambda>m. m\<lparr>elem := e\<rparr>) of
                      Inl x \<Rightarrow> Inl x
                    | Inr h1 \<Rightarrow>
                        (case load h1 (list_end l) of
                           Inl x \<Rightarrow> Inl x
                         | Inr n' \<Rightarrow> Inr (h1, l\<lparr>list_end := next_n n'\<rparr>))))))
      of
        Inl x \<Rightarrow> Inl x
      | Inr (h', l') \<Rightarrow> Inr (h', l'\<lparr>size_l := int_incr (size_l l')\<rparr>))"

definition DLinkedList_prepend_wrap ::
  "'a heap \<Rightarrow> dlinkedlist_t \<Rightarrow> 'a option \<Rightarrow> error + ('a heap \<times> dlinkedlist_t)" where
  "DLinkedList_prepend_wrap h l e =
     (case
        (if size_l l = 0 then
           (case store h (front l) (\<lambda>n. n\<lparr>elem := e\<rparr>) of
              Inl x \<Rightarrow> Inl x
            | Inr h1 \<Rightarrow> Inr (h1, l))
         else if size_l l = capacity l then
           (case Node_new h None (front l) e of
              (h1, node) \<Rightarrow>
                if node = None then Inl Node_is_null
                else
                  (case store h1 (front l) (\<lambda>n. n\<lparr>prev_n := node\<rparr>) of
                     Inl x \<Rightarrow> Inl x
                   | Inr h2 \<Rightarrow>
                       (let l1 = l\<lparr>front := node\<rparr>;
                            l2 = l1\<lparr>capacity := int_incr (capacity l1)\<rparr>
                        in case load h2 (list_start l2) of
                             Inl x \<Rightarrow> Inl x
                           | Inr n \<Rightarrow> Inr (h2, l2\<lparr>list_start := prev_n n\<rparr>))))
         else
           (case load h (list_start l) of
              Inl x \<Rightarrow> Inl x
            | Inr n \<Rightarrow>
                (let node = prev_n n in
                 if node = None then Inl Node_is_null
                 else
                   (case store h node (\<lambda>m. m\<lparr>elem := e\<rparr>) of
                      Inl x \<Rightarrow> Inl x
                    | Inr h1 \<Rightarrow>
                        (case load h1 (list_start l) of
                           Inl x \<Rightarrow> Inl x
                         | Inr n' \<Rightarrow> Inr (h1, l\<lparr>list_start := prev_n n'\<rparr>))))))
      of
        Inl x \<Rightarrow> Inl x
      | Inr (h', l') \<Rightarrow> Inr (h', l'\<lparr>size_l := int_incr (size_l l')\<rparr>))"

definition DLinkedList_set_wrap ::
  "'a heap \<Rightarrow> dlinkedlist_t \<Rightarrow> 'a option \<Rightarrow> int \<Rightarrow> error + ('a heap \<times> dlinkedlist_t)" where
  "DLinkedList_set_wrap h l e index =
     (if \<not> index \<ge> 0 then Inl Precondition_violated
      else if \<not> index \<le> size_l l then Inl Precondition_violated
      else if index = size_l l then DLinkedList_append_wrap h l e
      else
        (case search h l index of
           Inl x \<Rightarrow> Inl x
         | Inr node \<Rightarrow>
             if node = None then Inl Node_is_null
             else
               (case store h node (\<lambda>n. n\<lparr>elem := e\<rparr>) of
                  Inl x \<Rightarrow> Inl x
                | Inr h1 \<Rightarrow> Inr (h1, l))))"

fun exec_wrap :: "'a call \<Rightarrow> 'a heap \<times> dlinkedlist_t \<Rightarrow> error + ('a heap \<times> dlinkedlist_t)" where
  "exec_wrap (Append e) (h, l) = DLinkedList_append_wrap h l e"
| "exec_wrap (Prepend e) (h, l) = DLinkedList_prepend_wrap h l e"
| "exec_wrap (Set e i) (h, l) = DLinkedList_set_wrap h l e i"
| "exec_wrap (Get i) (h, l) =
     (case DLinkedList_get h l i of Inl x \<Rightarrow> Inl x | Inr v \<Rightarrow> Inr (h, l))"
| "exec_wrap First (h, l) =
     (case DLinkedList_first h l of Inl x \<Rightarrow> Inl x | Inr v \<Rightarrow> Inr (h, l))"
| "exec_wrap Last (h, l) =
     (case DLinkedList_last h l of Inl x \<Rightarrow> Inl x | Inr v \<Rightarrow> Inr (h, l))"
| "exec_wrap Length (h, l) = Inr (h, l)"
| "exec_wrap (Remove i) (h, l) = Inr (DLinkedList_remove h l i)"
| "exec_wrap RemoveHi (h, l) = Inr (DLinkedList_removehi h l)"
| "exec_wrap RemoveLo (h, l) = Inr (DLinkedList_removelo h l)"

fun run_wrap :: "'a call list \<Rightarrow> 'a heap \<times> dlinkedlist_t \<Rightarrow> error + ('a heap \<times> dlinkedlist_t)" where
  "run_wrap [] s = Inr s"
| "run_wrap (c # cs) s = (case exec_wrap c s of Inl x \<Rightarrow> Inl x | Inr s' \<Rightarrow> run_wrap cs s')"

definition create_run_wrap :: "int \<Rightarrow> 'a call list \<Rightarrow> error + ('a heap \<times> dlinkedlist_t)" where
  "create_run_wrap hint cs =
     (case DLinkedList_new heap0 hint of Inl x \<Rightarrow> Inl x | Inr s \<Rightarrow> run_wrap cs s)"

text \<open>
  A run stays below \<^verbatim>\<open>INT_MAX\<close> when no call inserts an element (an append, a prepend, or a
  set at \<open>index = size\<close>) into a container whose size is \<^verbatim>\<open>INT_MAX\<close>.
\<close>

fun inserts :: "'a call \<Rightarrow> dlinkedlist_t \<Rightarrow> bool" where
  "inserts (Append e) l = True"
| "inserts (Prepend e) l = True"
| "inserts (Set e i) l = (i = size_l l)"
| "inserts c l = False"

fun below_INT_MAX :: "'a call list \<Rightarrow> 'a heap \<times> dlinkedlist_t \<Rightarrow> bool" where
  "below_INT_MAX [] s = True"
| "below_INT_MAX (c # cs) (h, l) =
     (\<not> (inserts c l \<and> size_l l = INT_MAX) \<and>
      (case exec_wrap c (h, l) of Inl x \<Rightarrow> True | Inr s' \<Rightarrow> below_INT_MAX cs s'))"

definition stays_below_INT_MAX :: "int \<Rightarrow> 'a call list \<Rightarrow> bool" where
  "stays_below_INT_MAX hint cs =
     (case DLinkedList_new (heap0 :: 'a heap) hint of Inl x \<Rightarrow> True | Inr s \<Rightarrow> below_INT_MAX cs s)"

section \<open>Reference notions for the properties\<close>

text \<open>
  The node reached from \<open>p\<close> by following \<^verbatim>\<open>next\<close> (or \<^verbatim>\<open>prev\<close>) exactly \<open>k\<close> times. This
  is the positional meaning of an index, stated without regard to how \<^verbatim>\<open>search\<close> finds it.
\<close>

fun walk_next :: "'a heap \<Rightarrow> Node_T \<Rightarrow> nat \<Rightarrow> error + Node_T" where
  "walk_next h p 0 = Inr p"
| "walk_next h p (Suc k) =
     (case load h p of Inl x \<Rightarrow> Inl x | Inr n \<Rightarrow> walk_next h (next_n n) k)"

fun walk_prev :: "'a heap \<Rightarrow> Node_T \<Rightarrow> nat \<Rightarrow> error + Node_T" where
  "walk_prev h p 0 = Inr p"
| "walk_prev h p (Suc k) =
     (case load h p of Inl x \<Rightarrow> Inl x | Inr n \<Rightarrow> walk_prev h (prev_n n) k)"

text \<open>
  \<open>wired h ns\<close>: the addresses \<open>ns\<close> are allocated nodes linked in both directions in
  list order, with \<^verbatim>\<open>NULL\<close> before the first and after the last.
\<close>

definition wired :: "'a heap \<Rightarrow> addr list \<Rightarrow> bool" where
  "wired h ns \<longleftrightarrow>
     (\<forall>i<length ns.
        case cells h (ns ! i) of
          None \<Rightarrow> False
        | Some n \<Rightarrow>
            next_n n = (if Suc i < length ns then Some (ns ! Suc i) else None) \<and>
            prev_n n = (if i = 0 then None else Some (ns ! (i - 1))))"

text \<open>
  The representation invariant: \<open>ns\<close> is the whole pool in order from \<^verbatim>\<open>front\<close> to
  \<^verbatim>\<open>tail\<close>, every pool address has been handed out by the allocator, the window starts at
  the pool's first node, and \<^verbatim>\<open>list_end\<close> is the node at position \<open>size - 1\<close> (position \<open>0\<close>
  while the container is empty).
\<close>

definition pool_inv :: "addr list \<Rightarrow> 'a heap \<Rightarrow> dlinkedlist_t \<Rightarrow> bool" where
  "pool_inv ns h l \<longleftrightarrow>
     ns \<noteq> [] \<and> distinct ns \<and> wired h ns \<and> (\<forall>a\<in>set ns. a < brk h) \<and>
     front l = Some (hd ns) \<and> tail l = Some (last ns) \<and> list_start l = front l \<and>
     capacity l = int (length ns) \<and> 0 \<le> size_l l \<and> size_l l \<le> capacity l \<and>
     capacity l \<le> INT_MAX \<and> list_end l = Some (ns ! (nat (size_l l) - 1))"

text \<open>
  \<open>spare_after_end h l k\<close>: exactly \<open>k\<close> pool nodes lie after \<^verbatim>\<open>list_end\<close>, that is, \<open>k\<close> steps
  along \<^verbatim>\<open>next\<close> lead from \<^verbatim>\<open>list_end\<close> to \<^verbatim>\<open>tail\<close>, and \<^verbatim>\<open>tail\<close> is the last node.
\<close>

definition spare_after_end :: "'a heap \<Rightarrow> dlinkedlist_t \<Rightarrow> nat \<Rightarrow> bool" where
  "spare_after_end h l k \<longleftrightarrow>
     walk_next h (list_end l) k = Inr (tail l) \<and> walk_next h (tail l) 1 = Inr None"

text \<open>
  What a client sees: the values \<^verbatim>\<open>DLinkedList_get\<close> returns at the indices \<open>0, \<dots>, size - 1\<close>,
  and the summary of a run (length, capacity, first, last, contents).
\<close>

definition contents :: "'a heap \<Rightarrow> dlinkedlist_t \<Rightarrow> (error + 'a option) list" where
  "contents h l = map (\<lambda>i. DLinkedList_get h l (int i)) [0..<nat (size_l l)]"

definition observe ::
  "error + ('a heap \<times> dlinkedlist_t) \<Rightarrow>
   error + (int \<times> int \<times> (error + 'a option) \<times> (error + 'a option) \<times> (error + 'a option) list)" where
  "observe r =
     (case r of
        Inl x \<Rightarrow> Inl x
      | Inr (h, l) \<Rightarrow>
          Inr (DLinkedList_length l, capacity l, DLinkedList_first h l, DLinkedList_last h l,
               contents h l))"

text \<open>
  The shape of a container whose counters have wrapped: the pool is still one chain from
  \<^verbatim>\<open>front\<close> to \<^verbatim>\<open>tail\<close>, the window runs from the first node to the last, and the two
  counters are equal and not positive, or the size is 1 over a capacity of 0.
\<close>

definition wrapped_inv :: "addr list \<Rightarrow> 'a heap \<Rightarrow> dlinkedlist_t \<Rightarrow> bool" where
  "wrapped_inv ns h l \<longleftrightarrow>
     2 \<le> length ns \<and> distinct ns \<and> wired h ns \<and> (\<forall>a\<in>set ns. a < brk h) \<and>
     front l = Some (hd ns) \<and> tail l = Some (last ns) \<and> list_start l = front l \<and>
     list_end l = tail l \<and> capacity l \<le> 0 \<and>
     (size_l l = capacity l \<or> size_l l = 1 \<and> capacity l = 0)"

definition wrap_inv :: "'a heap \<Rightarrow> dlinkedlist_t \<Rightarrow> bool" where
  "wrap_inv h l \<longleftrightarrow> (\<exists>ns. pool_inv ns h l) \<or> (\<exists>ns. wrapped_inv ns h l)"

text \<open>
  Two summaries of a run: its counters, and whether \<^verbatim>\<open>search\<close> at an index returns
  \<^verbatim>\<open>list_start\<close> and whether it returns \<^verbatim>\<open>list_end\<close>.
\<close>

definition counters :: "error + ('a heap \<times> dlinkedlist_t) \<Rightarrow> error + (int \<times> int)" where
  "counters r = (case r of Inl x \<Rightarrow> Inl x | Inr (h, l) \<Rightarrow> Inr (size_l l, capacity l))"

definition search_hits ::
  "error + ('a heap \<times> dlinkedlist_t) \<Rightarrow> int \<Rightarrow> error + (int \<times> bool \<times> bool)" where
  "search_hits r index =
     (case r of
        Inl x \<Rightarrow> Inl x
      | Inr (h, l) \<Rightarrow>
          Inr (size_l l, search h l index = Inr (list_start l), search h l index = Inr (list_end l)))"

text \<open>The payload stored at an address (null where nothing is allocated).\<close>

definition payload :: "'a heap \<Rightarrow> addr \<Rightarrow> 'a option" where
  "payload h a = (case cells h a of None \<Rightarrow> None | Some n \<Rightarrow> elem n)"

text \<open>
  The heap that holds exactly \<open>n\<close> empty nodes at the addresses \<open>0, \<dots>, n - 1\<close>, each linked
  forward to the next lower address and backward to the next higher one.
\<close>

definition pool_heap :: "nat \<Rightarrow> 'a heap" where
  "pool_heap n =
     \<lparr>cells = (\<lambda>a. if a < n
                  then Some \<lparr>elem = None,
                             next_n = (if a = 0 then None else Some (a - 1)),
                             prev_n = (if Suc a = n then None else Some (Suc a))\<rparr>
                  else None),
      brk = n\<rparr>"

declare malloc_hint_loop.simps [simp del] search_fwd.simps [simp del] search_bwd.simps [simp del]

section \<open>Construction\<close>

lemma pool_heap_step:
  assumes "0 < b"
  shows "(case Node_new (pool_heap b) None (Some (b - 1)) None of
            (h1, temp) \<Rightarrow> (case store h1 (Some (b - 1)) (\<lambda>n. n\<lparr>prev_n := temp\<rparr>) of
               Inl x \<Rightarrow> Inl x | Inr h2 \<Rightarrow> Inr (h2, temp)))
         = Inr (pool_heap (Suc b) :: 'a heap, Some b)"
  using assms
  by (auto simp: Node_new_def store_def pool_heap_def fun_eq_iff)

lemma malloc_hint_loop_pool:
  "0 < b \<Longrightarrow> nat (i + 1) = k \<Longrightarrow>
   malloc_hint_loop (pool_heap b :: 'a heap) (Some (b - 1)) i = Inr (pool_heap (b + k), Some (b + k - 1))"
proof (induction k arbitrary: b i)
  case 0
  then have "\<not> i \<ge> 0" by simp
  then show ?case by (subst malloc_hint_loop.simps) simp
next
  case (Suc k)
  then have i: "i \<ge> 0" and k: "nat ((i - 1) + 1) = k" by simp_all
  have step: "Node_new (pool_heap b  :: 'a heap) None (Some (b - 1)) None = (h1, temp) \<Longrightarrow>
       store h1 (Some (b - 1)) (\<lambda>n. n\<lparr>prev_n := temp\<rparr>) = Inr (pool_heap (Suc b)) \<and> temp = Some b" for h1 temp
    using pool_heap_step [OF Suc.prems(1), where ?'a = 'a] by (auto split: sum.splits)
  have IH: "malloc_hint_loop (pool_heap (Suc b) :: 'a heap) (Some (Suc b - 1)) (i - 1)
        = Inr (pool_heap (Suc b + k), Some (Suc b + k - 1))"
    by (rule Suc.IH [OF _ k]) simp
  obtain h1 temp where nn: "Node_new (pool_heap b  :: 'a heap) None (Some (b - 1)) None = (h1, temp)"
    by (cases "Node_new (pool_heap b  :: 'a heap) None (Some (b - 1)) None")
  from step [OF nn] have t: "temp = Some b"
    and st: "store h1 (Some (b - 1)) (\<lambda>n. n\<lparr>prev_n := Some b\<rparr>) = Inr (pool_heap (Suc b))"
    by auto
  have "malloc_hint_loop (pool_heap b :: 'a heap) (Some (b - 1)) i
          = malloc_hint_loop (pool_heap (Suc b)) (Some b) (i - 1)"
    by (subst malloc_hint_loop.simps) (simp only: i nn t st if_True prod.case sum.case)
  with IH show ?case by simp
qed

lemma DLinkedList_new_pool:
  assumes "0 \<le> hint" "hint < INT_MAX"
  shows "DLinkedList_new (heap0 :: 'a heap) hint =
           Inr (pool_heap (nat (max hint 1)),
                \<lparr>front = Some (nat (max hint 1) - 1), tail = Some 0,
                 list_start = Some (nat (max hint 1) - 1), list_end = Some (nat (max hint 1) - 1),
                 capacity = max hint 1, size_l = 0\<rparr>)"
proof -
  have nn: "Node_new (heap0 :: 'a heap) None None None = (pool_heap 1, Some 0)"
    by (auto simp: Node_new_def heap0_def pool_heap_def fun_eq_iff)
  show ?thesis
  proof (cases "hint > 1")
    case True
    have "malloc_hint_loop (pool_heap 1 :: 'a heap) (Some (1 - 1)) (hint - 2)
            = Inr (pool_heap (1 + nat (hint - 2 + 1)), Some (1 + nat (hint - 2 + 1) - 1))"
      by (rule malloc_hint_loop_pool) simp_all
    moreover have "1 + nat (hint - 2 + 1) = nat (max hint 1)" using True by simp
    ultimately have "malloc_hint_loop (pool_heap 1 :: 'a heap) (Some 0) (hint - 2)
            = Inr (pool_heap (nat (max hint 1)), Some (nat (max hint 1) - 1))"
      by simp
    with True assms nn show ?thesis
      by (simp add: DLinkedList_new_def malloc_hint_def)
  next
    case False
    then have "nat (max hint 1) = 1" by simp
    with False assms nn show ?thesis
      by (auto simp: DLinkedList_new_def malloc_hint_def max_def INT_MAX_def)
  qed
qed



lemma dom_pool_heap: "dom (cells (pool_heap n)) = {..<n}"
  by (auto simp: pool_heap_def split: if_splits)

lemma elem_pool_heap: "cells (pool_heap n) a = Some m \<Longrightarrow> elem m = None"
  by (auto simp: pool_heap_def split: if_splits)

section \<open>Wiring of the pool\<close>

lemma wiredD:
  assumes "wired h ns" "i < length ns"
  obtains n where "cells h (ns ! i) = Some n"
    and "next_n n = (if Suc i < length ns then Some (ns ! Suc i) else None)"
    and "prev_n n = (if i = 0 then None else Some (ns ! (i - 1)))"
  using assms unfolding wired_def by (auto split: option.splits)

lemma wired_pool_heap: "wired (pool_heap n) (rev [0..<n])"
  unfolding wired_def pool_heap_def
  by (auto simp: rev_nth)

lemma wired_elem:
  assumes "wired h ns" "cells h a = Some n"
  shows "wired (h\<lparr>cells := (cells h)(a \<mapsto> n\<lparr>elem := e\<rparr>)\<rparr>) ns"
  unfolding wired_def
proof (intro allI impI)
  fix i assume "i < length ns"
  from wiredD [OF assms(1) this] obtain m where "cells h (ns ! i) = Some m"
      "next_n m = (if Suc i < length ns then Some (ns ! Suc i) else None)"
      "prev_n m = (if i = 0 then None else Some (ns ! (i - 1)))" by metis
  with assms(2)
  show "case cells (h\<lparr>cells := (cells h)(a \<mapsto> n\<lparr>elem := e\<rparr>)\<rparr>) (ns ! i) of None \<Rightarrow> False
     | Some n \<Rightarrow> next_n n = (if Suc i < length ns then Some (ns ! Suc i) else None) \<and>
         prev_n n = (if i = 0 then None else Some (ns ! (i - 1)))"
    by (cases "ns ! i = a") auto
qed

lemma wired_snoc:
  assumes w: "wired h ns" and ne: "ns \<noteq> []" and d: "distinct ns" and a: "a \<notin> set ns"
    and t: "cells h (last ns) = Some t"
  shows "wired (h\<lparr>cells := (cells h)(a \<mapsto> \<lparr>elem = e, next_n = None, prev_n = Some (last ns)\<rparr>,
                                     last ns \<mapsto> t\<lparr>next_n := Some a\<rparr>),
                 brk := b\<rparr>) (ns @ [a])"
  unfolding wired_def
proof (intro allI impI)
  fix i assume i: "i < length (ns @ [a])"
  let ?h = "h\<lparr>cells := (cells h)(a \<mapsto> \<lparr>elem = e, next_n = None, prev_n = Some (last ns)\<rparr>,
                                     last ns \<mapsto> t\<lparr>next_n := Some a\<rparr>), brk := b\<rparr>"
  have ln: "last ns = ns ! (length ns - 1)" using ne by (simp add: last_conv_nth)
  have al: "a \<noteq> last ns" using a ne by auto
  consider "i = length ns" | "i = length ns - 1" "i < length ns" | "Suc i < length ns"
    using i by force
  then show "case cells ?h ((ns @ [a]) ! i) of None \<Rightarrow> False
     | Some n \<Rightarrow> next_n n = (if Suc i < length (ns @ [a]) then Some ((ns @ [a]) ! Suc i) else None) \<and>
         prev_n n = (if i = 0 then None else Some ((ns @ [a]) ! (i - 1)))"
  proof cases
    case 1
    then show ?thesis using ne al ln by (simp add: nth_append)
  next
    case 2
    from wiredD [OF w 2(2)] obtain n where n: "cells h (ns ! i) = Some n"
      "prev_n n = (if i = 0 then None else Some (ns ! (i - 1)))" by metis
    with 2 t ln have "n = t" by simp
    with 2 n ln al show ?thesis by (auto simp: nth_append)
  next
    case 3
    from wiredD [OF w] 3 obtain n where n: "cells h (ns ! i) = Some n"
      "next_n n = (if Suc i < length ns then Some (ns ! Suc i) else None)"
      "prev_n n = (if i = 0 then None else Some (ns ! (i - 1)))" by (metis Suc_lessD)
    have "ns ! i \<noteq> last ns" using 3 d ln nth_eq_iff_index_eq [of ns i "length ns - 1"] by auto
    moreover have "ns ! i \<noteq> a" using 3 a by (metis Suc_lessD nth_mem)
    ultimately show ?thesis using 3 n by (auto simp: nth_append)
  qed
qed

lemma wired_cons:
  assumes w: "wired h ns" and ne: "ns \<noteq> []" and d: "distinct ns" and a: "a \<notin> set ns"
    and t: "cells h (hd ns) = Some t"
  shows "wired (h\<lparr>cells := (cells h)(a \<mapsto> \<lparr>elem = e, next_n = Some (hd ns), prev_n = None\<rparr>,
                                     hd ns \<mapsto> t\<lparr>prev_n := Some a\<rparr>),
                 brk := b\<rparr>) (a # ns)"
  unfolding wired_def
proof (intro allI impI)
  fix i assume i: "i < length (a # ns)"
  let ?h = "h\<lparr>cells := (cells h)(a \<mapsto> \<lparr>elem = e, next_n = Some (hd ns), prev_n = None\<rparr>,
                                     hd ns \<mapsto> t\<lparr>prev_n := Some a\<rparr>), brk := b\<rparr>"
  have hn: "hd ns = ns ! 0" using ne by (simp add: hd_conv_nth)
  have al: "a \<noteq> hd ns" using a ne by auto
  consider "i = 0" | "i = 1" | j where "i = Suc (Suc j)" "Suc j < length ns"
    using i by (cases i; cases "i - 1") auto
  then show "case cells ?h ((a # ns) ! i) of None \<Rightarrow> False
     | Some n \<Rightarrow> next_n n = (if Suc i < length (a # ns) then Some ((a # ns) ! Suc i) else None) \<and>
         prev_n n = (if i = 0 then None else Some ((a # ns) ! (i - 1)))"
  proof cases
    case 1
    then show ?thesis using ne al hn by simp
  next
    case 2
    have "0 < length ns" using ne by simp
    from wiredD [OF w this] obtain n where n: "cells h (ns ! 0) = Some n"
      "next_n n = (if Suc 0 < length ns then Some (ns ! Suc 0) else None)" by metis
    with t hn have "n = t" by simp
    with 2 n hn al show ?thesis by auto
  next
    case 3
    from wiredD [OF w 3(2)] obtain n where n: "cells h (ns ! Suc j) = Some n"
      "next_n n = (if Suc (Suc j) < length ns then Some (ns ! Suc (Suc j)) else None)"
      "prev_n n = (if Suc j = 0 then None else Some (ns ! (Suc j - 1)))" by metis
    have "ns ! Suc j \<noteq> hd ns" using 3 d hn ne nth_eq_iff_index_eq [of ns "Suc j" 0] by auto
    moreover have "ns ! Suc j \<noteq> a" using 3 a by (metis nth_mem)
    ultimately show ?thesis using 3 n by auto
  qed
qed


section \<open>Walking and searching\<close>

lemma walk_next_wired:
  "wired h ns \<Longrightarrow> j + k < length ns \<Longrightarrow> walk_next h (Some (ns ! j)) k = Inr (Some (ns ! (j + k)))"
proof (induction k arbitrary: j)
  case 0
  then show ?case by simp
next
  case (Suc k)
  from Suc.prems have j: "j < length ns" "Suc j < length ns" by simp_all
  from wiredD [OF Suc.prems(1) j(1)] j(2) obtain n where
    "cells h (ns ! j) = Some n" "next_n n = Some (ns ! Suc j)" by metis
  moreover have "walk_next h (Some (ns ! Suc j)) k = Inr (Some (ns ! (Suc j + k)))"
    using Suc.prems by (intro Suc.IH) simp_all
  ultimately show ?case by (simp add: load_def)
qed

lemma walk_prev_wired:
  "wired h ns \<Longrightarrow> j < length ns \<Longrightarrow> k \<le> j \<Longrightarrow> walk_prev h (Some (ns ! j)) k = Inr (Some (ns ! (j - k)))"
proof (induction k arbitrary: j)
  case 0
  then show ?case by simp
next
  case (Suc k)
  then obtain j' where j': "j = Suc j'" by (cases j) auto
  from wiredD [OF Suc.prems(1,2)] j' obtain n where
    "cells h (ns ! j) = Some n" "prev_n n = Some (ns ! j')" by (metis diff_Suc_1 nat.distinct(1))
  moreover have "walk_prev h (Some (ns ! j')) k = Inr (Some (ns ! (j' - k)))"
    using Suc.prems j' by (intro Suc.IH) simp_all
  ultimately show ?case using j' by (simp add: load_def)
qed

lemma search_fwd_walk:
  "i \<le> index \<Longrightarrow> search_fwd h node i index = walk_next h node (nat (index - i))"
proof (induction h node i index rule: search_fwd.induct)
  case (1 h node i index)
  show ?case
  proof (cases "i < index")
    case True
    then have n: "nat (index - i) = Suc (nat (index - (i + 1)))" by simp
    show ?thesis
      using True 1
      by (subst search_fwd.simps) (simp add: n split: sum.splits)
  next
    case False
    with 1 show ?thesis by (subst search_fwd.simps) simp
  qed
qed

lemma search_bwd_walk:
  "index \<le> i \<Longrightarrow> search_bwd h node i index = walk_prev h node (nat (i - index))"
proof (induction h node i index rule: search_bwd.induct)
  case (1 h node i index)
  show ?case
  proof (cases "i > index")
    case True
    then have n: "nat (i - index) = Suc (nat (i - 1 - index))" by simp
    show ?thesis
      using True 1
      by (subst search_bwd.simps) (simp add: n split: sum.splits)
  next
    case False
    with 1 show ?thesis by (subst search_bwd.simps) simp
  qed
qed

lemma search_pool:
  assumes inv: "pool_inv ns h l" and i: "0 \<le> index" "index < size_l l"
  shows "search h l index = Inr (Some (ns ! nat index))"
proof -
  from inv have w: "wired h ns" and ne: "ns \<noteq> []"
    and ls: "list_start l = Some (ns ! 0)"
    and le: "list_end l = Some (ns ! (nat (size_l l) - 1))"
    and sz: "nat (size_l l) \<le> length ns"
    by (auto simp: pool_inv_def hd_conv_nth)
  show ?thesis
  proof (cases "index = 0 \<or> index = size_l l - 1")
    case True
    then show ?thesis using i ls le
      by (auto simp: search_def nat_diff_distrib)
  next
    case False
    show ?thesis
    proof (cases "index < size_l l div 2")
      case True
      have "walk_next h (Some (ns ! 0)) (nat index) = Inr (Some (ns ! (0 + nat index)))"
        using i sz by (intro walk_next_wired [OF w]) simp
      then show ?thesis using False True i ls
        by (simp add: search_def split_search_def search_fwd_walk)
    next
      case F2: False
      have "walk_prev h (Some (ns ! (nat (size_l l) - 1))) (nat (size_l l - 1 - index))
              = Inr (Some (ns ! ((nat (size_l l) - 1) - nat (size_l l - 1 - index))))"
        using i sz by (intro walk_prev_wired [OF w]) auto
      moreover have "(nat (size_l l) - 1) - nat (size_l l - 1 - index) = nat index"
        using i by auto
      ultimately show ?thesis using False F2 i le
        by (simp add: search_def split_search_def search_bwd_walk)
    qed
  qed
qed


section \<open>What each insertion does to a well-formed container\<close>

lemma pool_inv_cell:
  assumes "pool_inv ns h l" "i < length ns"
  obtains n where "cells h (ns ! i) = Some n"
    and "next_n n = (if Suc i < length ns then Some (ns ! Suc i) else None)"
    and "prev_n n = (if i = 0 then None else Some (ns ! (i - 1)))"
  using assms wiredD [of h ns i] unfolding pool_inv_def by metis

lemma append_empty:
  assumes inv: "pool_inv ns h l" and sz: "size_l l = 0"
  obtains t where "cells h (last ns) = Some t"
    and "DLinkedList_append h l e =
           Inr (h\<lparr>cells := (cells h)(last ns \<mapsto> t\<lparr>elem := e\<rparr>)\<rparr>, l\<lparr>size_l := 1\<rparr>)"
proof -
  from inv have ne: "ns \<noteq> []" and tl: "tail l = Some (last ns)" by (auto simp: pool_inv_def)
  from ne have "length ns - 1 < length ns" by simp
  from pool_inv_cell [OF inv this] obtain t where t: "cells h (ns ! (length ns - 1)) = Some t" by metis
  with ne have t': "cells h (last ns) = Some t" by (simp add: last_conv_nth)
  have "DLinkedList_append h l e =
           Inr (h\<lparr>cells := (cells h)(last ns \<mapsto> t\<lparr>elem := e\<rparr>)\<rparr>, l\<lparr>size_l := 1\<rparr>)"
    using sz tl t' by (simp add: DLinkedList_append_def store_def size_incr_def INT_MAX_def)
  with t' that show ?thesis by blast
qed

lemma append_grow:
  assumes inv: "pool_inv ns h l" and sz: "size_l l \<noteq> 0" "size_l l = capacity l"
  obtains t where "cells h (last ns) = Some t"
    and "DLinkedList_append h l e =
           (if capacity l = INT_MAX then Inl Signed_overflow
            else Inr (h\<lparr>cells := (cells h)(brk h \<mapsto> \<lparr>elem = e, next_n = None, prev_n = Some (last ns)\<rparr>,
                                          last ns \<mapsto> t\<lparr>next_n := Some (brk h)\<rparr>),
                       brk := Suc (brk h)\<rparr>,
                     l\<lparr>tail := Some (brk h), capacity := capacity l + 1,
                       list_end := Some (brk h), size_l := size_l l + 1\<rparr>))"
proof -
  from inv have ne: "ns \<noteq> []" and tl: "tail l = Some (last ns)"
    and cap: "capacity l = int (length ns)"
    and le: "list_end l = Some (ns ! (nat (size_l l) - 1))"
    and fresh: "\<forall>a\<in>set ns. a < brk h"
    by (auto simp: pool_inv_def)
  from ne have "length ns - 1 < length ns" by simp
  from pool_inv_cell [OF inv this] obtain t where t: "cells h (ns ! (length ns - 1)) = Some t" by metis
  with ne have t': "cells h (last ns) = Some t" by (simp add: last_conv_nth)
  from le sz cap ne have le': "list_end l = Some (last ns)" by (simp add: last_conv_nth)
  from fresh last_in_set [OF ne] have "last ns < brk h" by blast
  then have nb: "last ns \<noteq> brk h" by simp
  have "DLinkedList_append h l e =
           (if capacity l = INT_MAX then Inl Signed_overflow
            else Inr (h\<lparr>cells := (cells h)(brk h \<mapsto> \<lparr>elem = e, next_n = None, prev_n = Some (last ns)\<rparr>,
                                          last ns \<mapsto> t\<lparr>next_n := Some (brk h)\<rparr>),
                       brk := Suc (brk h)\<rparr>,
                     l\<lparr>tail := Some (brk h), capacity := capacity l + 1,
                       list_end := Some (brk h), size_l := size_l l + 1\<rparr>))"
    using sz tl t' le' nb
    by (simp add: DLinkedList_append_def Node_new_def store_def load_def size_incr_def)
  with t' that show ?thesis by blast
qed

lemma append_spare:
  assumes inv: "pool_inv ns h l" and sz: "size_l l \<noteq> 0" "size_l l \<noteq> capacity l"
  obtains t where "cells h (ns ! nat (size_l l)) = Some t"
    and "DLinkedList_append h l e =
           Inr (h\<lparr>cells := (cells h)(ns ! nat (size_l l) \<mapsto> t\<lparr>elem := e\<rparr>)\<rparr>,
                l\<lparr>list_end := Some (ns ! nat (size_l l)), size_l := size_l l + 1\<rparr>)"
proof -
  from inv sz have d: "distinct ns"
    and cap: "capacity l = int (length ns)" "capacity l \<le> INT_MAX"
    and le: "list_end l = Some (ns ! (nat (size_l l) - 1))"
    and s: "0 < size_l l" "size_l l < capacity l"
    by (auto simp: pool_inv_def)
  let ?k = "nat (size_l l)"
  from s cap have k: "?k - 1 < length ns" "Suc (?k - 1) = ?k" "?k < length ns" by auto
  from pool_inv_cell [OF inv k(1)] k obtain n where
    n: "cells h (ns ! (?k - 1)) = Some n" "next_n n = Some (ns ! ?k)" by metis
  from pool_inv_cell [OF inv k(3)] obtain t where t: "cells h (ns ! ?k) = Some t" by metis
  have neq: "ns ! (?k - 1) \<noteq> ns ! ?k"
    using d k nth_eq_iff_index_eq [of ns "?k - 1" ?k] by auto
  have "DLinkedList_append h l e =
           Inr (h\<lparr>cells := (cells h)(ns ! ?k \<mapsto> t\<lparr>elem := e\<rparr>)\<rparr>,
                l\<lparr>list_end := Some (ns ! ?k), size_l := size_l l + 1\<rparr>)"
    using sz le n t neq s cap
    by (simp add: DLinkedList_append_def store_def load_def size_incr_def)
  with t that show ?thesis by blast
qed

lemma prepend_empty:
  assumes inv: "pool_inv ns h l" and sz: "size_l l = 0"
  obtains t where "cells h (hd ns) = Some t"
    and "DLinkedList_prepend h l e =
           Inr (h\<lparr>cells := (cells h)(hd ns \<mapsto> t\<lparr>elem := e\<rparr>)\<rparr>, l\<lparr>size_l := 1\<rparr>)"
proof -
  from inv have ne: "ns \<noteq> []" and fr: "front l = Some (hd ns)" by (auto simp: pool_inv_def)
  from ne have "0 < length ns" by simp
  from pool_inv_cell [OF inv this] obtain t where t: "cells h (ns ! 0) = Some t" by metis
  with ne have t': "cells h (hd ns) = Some t" by (simp add: hd_conv_nth)
  have "DLinkedList_prepend h l e =
           Inr (h\<lparr>cells := (cells h)(hd ns \<mapsto> t\<lparr>elem := e\<rparr>)\<rparr>, l\<lparr>size_l := 1\<rparr>)"
    using sz fr t' by (simp add: DLinkedList_prepend_def store_def size_incr_def INT_MAX_def)
  with t' that show ?thesis by blast
qed

lemma prepend_grow:
  assumes inv: "pool_inv ns h l" and sz: "size_l l \<noteq> 0" "size_l l = capacity l"
  obtains t where "cells h (hd ns) = Some t"
    and "DLinkedList_prepend h l e =
           (if capacity l = INT_MAX then Inl Signed_overflow
            else Inr (h\<lparr>cells := (cells h)(brk h \<mapsto> \<lparr>elem = e, next_n = Some (hd ns), prev_n = None\<rparr>,
                                          hd ns \<mapsto> t\<lparr>prev_n := Some (brk h)\<rparr>),
                       brk := Suc (brk h)\<rparr>,
                     l\<lparr>front := Some (brk h), capacity := capacity l + 1,
                       list_start := Some (brk h), size_l := size_l l + 1\<rparr>))"
proof -
  from inv have ne: "ns \<noteq> []" and fr: "front l = Some (hd ns)"
    and ls: "list_start l = front l"
    and fresh: "\<forall>a\<in>set ns. a < brk h"
    by (auto simp: pool_inv_def)
  from ne have "0 < length ns" by simp
  from pool_inv_cell [OF inv this] obtain t where t: "cells h (ns ! 0) = Some t" by metis
  with ne have t': "cells h (hd ns) = Some t" by (simp add: hd_conv_nth)
  from fresh hd_in_set [OF ne] have "hd ns < brk h" by blast
  then have nb: "hd ns \<noteq> brk h" by simp
  have "DLinkedList_prepend h l e =
           (if capacity l = INT_MAX then Inl Signed_overflow
            else Inr (h\<lparr>cells := (cells h)(brk h \<mapsto> \<lparr>elem = e, next_n = Some (hd ns), prev_n = None\<rparr>,
                                          hd ns \<mapsto> t\<lparr>prev_n := Some (brk h)\<rparr>),
                       brk := Suc (brk h)\<rparr>,
                     l\<lparr>front := Some (brk h), capacity := capacity l + 1,
                       list_start := Some (brk h), size_l := size_l l + 1\<rparr>))"
    using sz fr ls t' nb
    by (simp add: DLinkedList_prepend_def Node_new_def store_def load_def size_incr_def)
  with t' that show ?thesis by blast
qed

lemma prepend_spare:
  assumes inv: "pool_inv ns h l" and sz: "size_l l \<noteq> 0" "size_l l \<noteq> capacity l"
  shows "DLinkedList_prepend h l e = Inl Node_is_null"
proof -
  from inv have ne: "ns \<noteq> []" and fr: "front l = Some (hd ns)"
    and ls: "list_start l = front l"
    by (auto simp: pool_inv_def)
  from ne have "0 < length ns" by simp
  from pool_inv_cell [OF inv this] obtain t where "cells h (ns ! 0) = Some t" "prev_n t = None"
    by metis
  with ne have "cells h (hd ns) = Some t" "prev_n t = None" by (simp_all add: hd_conv_nth)
  then show ?thesis
    using sz fr ls by (simp add: DLinkedList_prepend_def load_def)
qed

lemma set_inside:
  assumes inv: "pool_inv ns h l" and i: "0 \<le> index" "index < size_l l"
  obtains t where "cells h (ns ! nat index) = Some t"
    and "DLinkedList_set h l e index =
           Inr (h\<lparr>cells := (cells h)(ns ! nat index \<mapsto> t\<lparr>elem := e\<rparr>)\<rparr>, l)"
proof -
  from inv i have "nat index < length ns" by (auto simp: pool_inv_def)
  from pool_inv_cell [OF inv this] obtain t where t: "cells h (ns ! nat index) = Some t" by metis
  have "DLinkedList_set h l e index =
           Inr (h\<lparr>cells := (cells h)(ns ! nat index \<mapsto> t\<lparr>elem := e\<rparr>)\<rparr>, l)"
    using i t search_pool [OF inv i] by (simp add: DLinkedList_set_def store_def)
  with t that show ?thesis by blast
qed


section \<open>The invariant holds in every reachable state\<close>

lemma pool_inv_elem:
  assumes inv: "pool_inv ns h l" and t: "cells h a = Some t"
  shows "pool_inv ns (h\<lparr>cells := (cells h)(a \<mapsto> t\<lparr>elem := e\<rparr>)\<rparr>) l"
  using inv wired_elem [OF _ t, of ns e] by (simp add: pool_inv_def)

lemma append_inv:
  assumes inv: "pool_inv ns h l" and r: "DLinkedList_append h l e = Inr (h', l')"
  shows "\<exists>ns'. pool_inv ns' h' l'"
proof -
  consider "size_l l = 0" | "size_l l \<noteq> 0" "size_l l = capacity l"
    | "size_l l \<noteq> 0" "size_l l \<noteq> capacity l" by blast
  then show ?thesis
  proof cases
    case 1
    from append_empty [OF inv 1, of e] r obtain t where t: "cells h (last ns) = Some t"
      and h': "h' = h\<lparr>cells := (cells h)(last ns \<mapsto> t\<lparr>elem := e\<rparr>)\<rparr>" and l': "l' = l\<lparr>size_l := 1\<rparr>"
      by (metis Inr_inject prod.inject)
    have "pool_inv ns h' l" unfolding h' by (rule pool_inv_elem [OF inv t])
    with 1 have "pool_inv ns h' l'" unfolding l' by (auto simp: pool_inv_def Suc_le_eq)
    then show ?thesis ..
  next
    case 2
    from append_grow [OF inv 2, of e] r obtain t where t: "cells h (last ns) = Some t"
      and cap: "capacity l \<noteq> INT_MAX"
      and h': "h' = h\<lparr>cells := (cells h)(brk h \<mapsto> \<lparr>elem = e, next_n = None, prev_n = Some (last ns)\<rparr>,
                                          last ns \<mapsto> t\<lparr>next_n := Some (brk h)\<rparr>),
                       brk := Suc (brk h)\<rparr>"
      and l': "l' = l\<lparr>tail := Some (brk h), capacity := capacity l + 1,
                       list_end := Some (brk h), size_l := size_l l + 1\<rparr>"
      by (metis Inl_Inr_False Inr_inject prod.inject)
    from inv have ne: "ns \<noteq> []" and d: "distinct ns" and w: "wired h ns"
      and fresh: "\<forall>a\<in>set ns. a < brk h" by (auto simp: pool_inv_def)
    from fresh have a: "brk h \<notin> set ns" by auto
    have "wired h' (ns @ [brk h])" unfolding h' by (rule wired_snoc [OF w ne d a t])
    moreover have "nat (size_l l + 1) - 1 = length ns" using inv 2 by (auto simp: pool_inv_def)
    ultimately have "pool_inv (ns @ [brk h]) h' l'"
      using inv 2 cap a fresh unfolding l'
      by (auto simp: pool_inv_def h' less_Suc_eq)
    then show ?thesis ..
  next
    case 3
    from append_spare [OF inv 3, of e] r obtain t where t: "cells h (ns ! nat (size_l l)) = Some t"
      and h': "h' = h\<lparr>cells := (cells h)(ns ! nat (size_l l) \<mapsto> t\<lparr>elem := e\<rparr>)\<rparr>"
      and l': "l' = l\<lparr>list_end := Some (ns ! nat (size_l l)), size_l := size_l l + 1\<rparr>"
      by (metis Inr_inject prod.inject)
    have "pool_inv ns h' l" unfolding h' by (rule pool_inv_elem [OF inv t])
    moreover have "nat (size_l l + 1) - 1 = nat (size_l l)" using inv by (auto simp: pool_inv_def)
    ultimately have "pool_inv ns h' l'" using 3 unfolding l' by (auto simp: pool_inv_def)
    then show ?thesis ..
  qed
qed

lemma prepend_inv:
  assumes inv: "pool_inv ns h l" and r: "DLinkedList_prepend h l e = Inr (h', l')"
  shows "\<exists>ns'. pool_inv ns' h' l'"
proof -
  consider "size_l l = 0" | "size_l l \<noteq> 0" "size_l l = capacity l"
    | "size_l l \<noteq> 0" "size_l l \<noteq> capacity l" by blast
  then show ?thesis
  proof cases
    case 1
    from prepend_empty [OF inv 1, of e] r obtain t where t: "cells h (hd ns) = Some t"
      and h': "h' = h\<lparr>cells := (cells h)(hd ns \<mapsto> t\<lparr>elem := e\<rparr>)\<rparr>" and l': "l' = l\<lparr>size_l := 1\<rparr>"
      by (metis Inr_inject prod.inject)
    have "pool_inv ns h' l" unfolding h' by (rule pool_inv_elem [OF inv t])
    with 1 have "pool_inv ns h' l'" unfolding l' by (auto simp: pool_inv_def Suc_le_eq)
    then show ?thesis ..
  next
    case 2
    from prepend_grow [OF inv 2, of e] r obtain t where t: "cells h (hd ns) = Some t"
      and cap: "capacity l \<noteq> INT_MAX"
      and h': "h' = h\<lparr>cells := (cells h)(brk h \<mapsto> \<lparr>elem = e, next_n = Some (hd ns), prev_n = None\<rparr>,
                                          hd ns \<mapsto> t\<lparr>prev_n := Some (brk h)\<rparr>),
                       brk := Suc (brk h)\<rparr>"
      and l': "l' = l\<lparr>front := Some (brk h), capacity := capacity l + 1,
                       list_start := Some (brk h), size_l := size_l l + 1\<rparr>"
      by (metis Inl_Inr_False Inr_inject prod.inject)
    from inv have ne: "ns \<noteq> []" and d: "distinct ns" and w: "wired h ns"
      and fresh: "\<forall>a\<in>set ns. a < brk h" by (auto simp: pool_inv_def)
    from fresh have a: "brk h \<notin> set ns" by auto
    have "wired h' (brk h # ns)" unfolding h' by (rule wired_cons [OF w ne d a t])
    moreover have "nat (size_l l + 1) - 1 = Suc (nat (size_l l) - 1)"
      using inv 2 by (auto simp: pool_inv_def)
    ultimately have "pool_inv (brk h # ns) h' l'"
      using inv 2 cap a fresh unfolding l'
      by (auto simp: pool_inv_def h' less_Suc_eq)
    then show ?thesis ..
  next
    case 3
    from prepend_spare [OF inv 3, of e] r show ?thesis by simp
  qed
qed

lemma set_inv:
  assumes inv: "pool_inv ns h l" and r: "DLinkedList_set h l e index = Inr (h', l')"
  shows "\<exists>ns'. pool_inv ns' h' l'"
proof (cases "0 \<le> index \<and> index < size_l l")
  case True
  then have i: "0 \<le> index" "index < size_l l" by simp_all
  from set_inside [OF inv i, of e] r obtain t where t: "cells h (ns ! nat index) = Some t"
    and h': "h' = h\<lparr>cells := (cells h)(ns ! nat index \<mapsto> t\<lparr>elem := e\<rparr>)\<rparr>" and l': "l' = l"
    by (metis Inr_inject prod.inject)
  have "pool_inv ns h' l'" unfolding h' l' by (rule pool_inv_elem [OF inv t])
  then show ?thesis ..
next
  case False
  with r have "DLinkedList_append h l e = Inr (h', l')"
    by (auto simp: DLinkedList_set_def split: if_splits)
  from append_inv [OF inv this] show ?thesis .
qed

lemma exec_inv:
  assumes "pool_inv ns h l" "exec c (h, l) = Inr (h', l')"
  shows "\<exists>ns'. pool_inv ns' h' l'"
  using assms
  by (cases c)
     (auto simp: DLinkedList_remove_def DLinkedList_removehi_def DLinkedList_removelo_def
           split: sum.splits dest: append_inv prepend_inv set_inv)

lemma run_inv:
  "pool_inv ns h l \<Longrightarrow> run cs (h, l) = Inr (h', l') \<Longrightarrow> \<exists>ns'. pool_inv ns' h' l'"
proof (induction cs arbitrary: ns h l)
  case Nil
  then show ?case by auto
next
  case (Cons c cs)
  from Cons.prems(2) obtain h1 l1 where e: "exec c (h, l) = Inr (h1, l1)"
    and r: "run cs (h1, l1) = Inr (h', l')"
    by (auto split: sum.splits)
  from exec_inv [OF Cons.prems(1) e] obtain ns1 where "pool_inv ns1 h1 l1" ..
  from Cons.IH [OF this r] show ?case .
qed

lemma new_inv:
  assumes "DLinkedList_new heap0 hint = Inr (h, l)"
  shows "pool_inv (rev [0..<nat (max hint 1)]) h l"
proof -
  from assms have hint: "0 \<le> hint" "hint < INT_MAX"
    by (auto simp: DLinkedList_new_def split: if_splits)
  let ?n = "nat (max hint 1)"
  have n: "0 < ?n" by simp
  from DLinkedList_new_pool [OF hint, where ?'a = 'a] assms
  have "Inr (h, l) = (Inr (pool_heap ?n, \<lparr>front = Some (?n - 1), tail = Some 0,
       list_start = Some (?n - 1), list_end = Some (?n - 1), capacity = max hint 1, size_l = 0\<rparr>)
       :: error + 'a heap \<times> dlinkedlist_t)"
    by simp
  then have h: "h = pool_heap ?n" and l: "l = \<lparr>front = Some (?n - 1), tail = Some 0,
       list_start = Some (?n - 1), list_end = Some (?n - 1), capacity = max hint 1, size_l = 0\<rparr>"
    by simp_all
  have "hd (rev [0..<?n]) = ?n - 1" "last (rev [0..<?n]) = 0" "rev [0..<?n] ! 0 = ?n - 1"
    using n by (simp_all add: hd_rev last_rev rev_nth hd_conv_nth)
  moreover have "1 \<le> max hint 1" "max hint 1 \<le> INT_MAX" "brk (pool_heap ?n :: 'a heap) = ?n"
    using hint by (simp_all add: pool_heap_def)
  ultimately show ?thesis
    using wired_pool_heap [of ?n, where ?'a = 'a] unfolding h l
    by (simp add: pool_inv_def le_max_iff_disj)
qed

lemma create_run_inv:
  assumes "create_run hint cs = Inr (h, l)"
  shows "\<exists>ns. pool_inv ns h l"
proof -
  from assms obtain h0 l0 where n: "DLinkedList_new heap0 hint = Inr (h0, l0)"
    and r: "run cs (h0, l0) = Inr (h, l)"
    by (auto simp: create_run_def split: sum.splits)
  from run_inv [OF new_inv [OF n] r] show ?thesis .
qed

section \<open>Contents seen by a client\<close>

lemma get_pool:
  assumes inv: "pool_inv ns h l" and i: "0 \<le> index" "index < size_l l"
  shows "DLinkedList_get h l index = Inr (payload h (ns ! nat index))"
proof -
  from inv i have "nat index < length ns" by (auto simp: pool_inv_def)
  from pool_inv_cell [OF inv this] obtain n where "cells h (ns ! nat index) = Some n" by metis
  then show ?thesis
    using i search_pool [OF inv i] by (simp add: DLinkedList_get_def load_def payload_def)
qed

lemma contents_pool:
  assumes inv: "pool_inv ns h l"
  shows "contents h l = map (\<lambda>a. Inr (payload h a)) (take (nat (size_l l)) ns)"
proof (rule nth_equalityI)
  from inv have sz: "nat (size_l l) \<le> length ns" by (auto simp: pool_inv_def)
  then show "length (contents h l) = length (map (\<lambda>a. Inr (payload h a)) (take (nat (size_l l)) ns))"
    by (simp add: contents_def)
  fix i assume "i < length (contents h l)"
  then have i: "i < nat (size_l l)" by (simp add: contents_def)
  then have "DLinkedList_get h l (int i) = Inr (payload h (ns ! nat (int i)))"
    by (intro get_pool [OF inv]) simp_all
  then show "contents h l ! i = map (\<lambda>a. Inr (payload h a)) (take (nat (size_l l)) ns) ! i"
    using i sz by (simp add: contents_def)
qed

lemma first_last_pool:
  assumes inv: "pool_inv ns h l" and nz: "size_l l \<noteq> 0"
  shows "DLinkedList_first h l = hd (contents h l)"
    and "DLinkedList_last h l = last (contents h l)"
proof -
  from inv nz have sz: "0 < nat (size_l l)" "nat (size_l l) \<le> length ns" and ne: "ns \<noteq> []"
    and ls: "list_start l = Some (ns ! 0)"
    and le: "list_end l = Some (ns ! (nat (size_l l) - 1))"
    by (auto simp: pool_inv_def hd_conv_nth)
  have c: "contents h l = map (\<lambda>a. Inr (payload h a)) (take (nat (size_l l)) ns)"
    by (rule contents_pool [OF inv])
  have tne: "take (nat (size_l l)) ns \<noteq> []" using sz ne by auto
  from ne have "0 < length ns" by simp
  from pool_inv_cell [OF inv this] obtain n where n: "cells h (ns ! 0) = Some n" by metis
  have "nat (size_l l) - 1 < length ns" using sz by auto
  from pool_inv_cell [OF inv this] obtain m where
    m: "cells h (ns ! (nat (size_l l) - 1)) = Some m" by metis
  show "DLinkedList_first h l = hd (contents h l)"
    using nz ls n tne sz unfolding c
    by (simp add: DLinkedList_first_def load_def payload_def hd_map hd_conv_nth)
  show "DLinkedList_last h l = last (contents h l)"
    using nz le m tne sz unfolding c
    by (simp add: DLinkedList_last_def load_def payload_def last_map last_conv_nth min_absorb2)
qed


lemma append_effect:
  assumes inv: "pool_inv ns h l" and nz: "size_l l \<noteq> 0"
    and r: "DLinkedList_append h l e = Inr (h', l')"
  shows "\<exists>ns'. pool_inv ns' h' l' \<and> size_l l' = size_l l + 1 \<and>
           contents h' l' = contents h l @ [Inr e]"
proof -
  from inv nz have d: "distinct ns" and ne: "ns \<noteq> []" and w: "wired h ns"
    and fresh: "\<forall>a\<in>set ns. a < brk h"
    and cap: "capacity l = int (length ns)"
    and sz: "0 < size_l l" "size_l l \<le> capacity l"
    by (auto simp: pool_inv_def)
  let ?k = "nat (size_l l)"
  have c: "contents h l = map (\<lambda>a. Inr (payload h a)) (take ?k ns)"
    by (rule contents_pool [OF inv])
  show ?thesis
  proof (cases "size_l l = capacity l")
    case True
    from append_grow [OF inv nz True, of e] r obtain t where t: "cells h (last ns) = Some t"
      and ncap: "capacity l \<noteq> INT_MAX"
      and h': "h' = h\<lparr>cells := (cells h)(brk h \<mapsto> \<lparr>elem = e, next_n = None, prev_n = Some (last ns)\<rparr>,
                                          last ns \<mapsto> t\<lparr>next_n := Some (brk h)\<rparr>),
                       brk := Suc (brk h)\<rparr>"
      and l': "l' = l\<lparr>tail := Some (brk h), capacity := capacity l + 1,
                       list_end := Some (brk h), size_l := size_l l + 1\<rparr>"
      by (metis Inl_Inr_False Inr_inject prod.inject)
    from fresh have a: "brk h \<notin> set ns" by auto
    from append_inv [OF inv r] obtain ns0 where "pool_inv ns0 h' l'" ..
    have "wired h' (ns @ [brk h])" unfolding h' by (rule wired_snoc [OF w ne d a t])
    moreover have "nat (size_l l + 1) - 1 = length ns" using True cap by simp
    ultimately have inv': "pool_inv (ns @ [brk h]) h' l'"
      using inv nz True ncap a fresh unfolding l'
      by (auto simp: pool_inv_def h' less_Suc_eq)
    have k: "?k = length ns" using True cap by simp
    have same: "payload h' x = payload h x" if "x \<in> set ns" for x
      using that a t unfolding h' payload_def by (cases "x = last ns") auto
    have new: "payload h' (brk h) = e"
      using a ne unfolding h' payload_def by auto
    have "contents h' l' = map (\<lambda>a. Inr (payload h' a)) (take (nat (size_l l')) (ns @ [brk h]))"
      by (rule contents_pool [OF inv'])
    also have "nat (size_l l') = Suc (length ns)" using k sz unfolding l' by simp
    also have "map (\<lambda>a. Inr (payload h' a)) (take (Suc (length ns)) (ns @ [brk h]))
                 = map (\<lambda>a. Inr (payload h a)) ns @ [Inr e]"
      using same new by simp
    finally have "contents h' l' = contents h l @ [Inr e]" using c k by simp
    with inv' show ?thesis unfolding l' by auto
  next
    case False
    from append_spare [OF inv nz False, of e] r obtain t where t: "cells h (ns ! ?k) = Some t"
      and h': "h' = h\<lparr>cells := (cells h)(ns ! ?k \<mapsto> t\<lparr>elem := e\<rparr>)\<rparr>"
      and l': "l' = l\<lparr>list_end := Some (ns ! ?k), size_l := size_l l + 1\<rparr>"
      by (metis Inr_inject prod.inject)
    have k: "?k < length ns" using False sz cap by simp
    have "pool_inv ns h' l" unfolding h' by (rule pool_inv_elem [OF inv t])
    moreover have "nat (size_l l + 1) - 1 = ?k" using sz by simp
    ultimately have inv': "pool_inv ns h' l'" using False sz unfolding l' by (auto simp: pool_inv_def)
    have same: "payload h' x = payload h x" if "x \<in> set (take ?k ns)" for x
    proof -
      from that obtain i where "i < ?k" "x = ns ! i"
        using k by (auto simp: in_set_conv_nth)
      then have "x \<noteq> ns ! ?k" using d k nth_eq_iff_index_eq [of ns i ?k] by auto
      then show ?thesis unfolding h' payload_def by simp
    qed
    have new: "payload h' (ns ! ?k) = e" unfolding h' payload_def by simp
    have "contents h' l' = map (\<lambda>a. Inr (payload h' a)) (take (nat (size_l l')) ns)"
      by (rule contents_pool [OF inv'])
    also have "nat (size_l l') = Suc ?k" using sz unfolding l' by simp
    also have "take (Suc ?k) ns = take ?k ns @ [ns ! ?k]" using k by (rule take_Suc_conv_app_nth)
    also have "map (\<lambda>a. Inr (payload h' a)) (take ?k ns @ [ns ! ?k])
                 = map (\<lambda>a. Inr (payload h a)) (take ?k ns) @ [Inr e]"
      using same new by simp
    finally have "contents h' l' = contents h l @ [Inr e]" using c by simp
    with inv' show ?thesis unfolding l' by auto
  qed
qed

lemma prepend_effect:
  assumes inv: "pool_inv ns h l" and nz: "size_l l \<noteq> 0"
    and r: "DLinkedList_prepend h l e = Inr (h', l')"
  shows "size_l l = capacity l \<and>
         (\<exists>ns'. pool_inv ns' h' l' \<and> size_l l' = size_l l + 1 \<and> capacity l' = capacity l + 1 \<and>
            contents h' l' = Inr e # contents h l)"
proof -
  from inv nz have d: "distinct ns" and ne: "ns \<noteq> []" and w: "wired h ns"
    and fresh: "\<forall>a\<in>set ns. a < brk h"
    and cap: "capacity l = int (length ns)"
    and sz: "0 < size_l l" "size_l l \<le> capacity l"
    by (auto simp: pool_inv_def)
  have full: "size_l l = capacity l"
    using prepend_spare [OF inv nz, of e] r by auto
  let ?k = "nat (size_l l)"
  have k: "?k = length ns" using full cap by simp
  have c: "contents h l = map (\<lambda>a. Inr (payload h a)) (take ?k ns)"
    by (rule contents_pool [OF inv])
  from prepend_grow [OF inv nz full, of e] r obtain t where t: "cells h (hd ns) = Some t"
    and ncap: "capacity l \<noteq> INT_MAX"
    and h': "h' = h\<lparr>cells := (cells h)(brk h \<mapsto> \<lparr>elem = e, next_n = Some (hd ns), prev_n = None\<rparr>,
                                          hd ns \<mapsto> t\<lparr>prev_n := Some (brk h)\<rparr>),
                       brk := Suc (brk h)\<rparr>"
    and l': "l' = l\<lparr>front := Some (brk h), capacity := capacity l + 1,
                       list_start := Some (brk h), size_l := size_l l + 1\<rparr>"
    by (metis Inl_Inr_False Inr_inject prod.inject)
  from fresh have a: "brk h \<notin> set ns" by auto
  have "wired h' (brk h # ns)" unfolding h' by (rule wired_cons [OF w ne d a t])
  moreover have "nat (size_l l + 1) - 1 = Suc (nat (size_l l) - 1)" using sz by simp
  ultimately have inv': "pool_inv (brk h # ns) h' l'"
    using inv nz full ncap a fresh unfolding l'
    by (auto simp: pool_inv_def h' less_Suc_eq)
  have same: "payload h' x = payload h x" if "x \<in> set ns" for x
    using that a t unfolding h' payload_def by (cases "x = hd ns") auto
  have new: "payload h' (brk h) = e"
    using a ne unfolding h' payload_def by auto
  have "contents h' l' = map (\<lambda>a. Inr (payload h' a)) (take (nat (size_l l')) (brk h # ns))"
    by (rule contents_pool [OF inv'])
  also have "nat (size_l l') = Suc (length ns)" using k sz unfolding l' by simp
  also have "map (\<lambda>a. Inr (payload h' a)) (take (Suc (length ns)) (brk h # ns))
                 = Inr e # map (\<lambda>a. Inr (payload h a)) ns"
    using same new by simp
  finally have "contents h' l' = Inr e # contents h l" using c k by simp
  with inv' full show ?thesis unfolding l' by auto
qed


text \<open>
  \<^verbatim>\<open>DLinkedList_set\<close> at \<open>index = size\<close> is \<^verbatim>\<open>DLinkedList_append\<close>; below the size it replaces
  the payload at that position and nothing else.
\<close>

lemma set_at_size:
  "0 \<le> size_l l \<Longrightarrow> DLinkedList_set h l e (size_l l) = DLinkedList_append h l e"
  by (simp add: DLinkedList_set_def)

lemma set_effect:
  assumes inv: "pool_inv ns h l" and i: "0 \<le> index" "index < size_l l"
    and r: "DLinkedList_set h l e index = Inr (h', l')"
  shows "l' = l \<and> pool_inv ns h' l' \<and> contents h' l' = (contents h l)[nat index := Inr e]"
proof -
  from inv have d: "distinct ns" and sz: "nat (size_l l) \<le> length ns"
    by (auto simp: pool_inv_def)
  let ?k = "nat (size_l l)" and ?i = "nat index"
  from set_inside [OF inv i, of e] r obtain t where t: "cells h (ns ! ?i) = Some t"
    and h': "h' = h\<lparr>cells := (cells h)(ns ! ?i \<mapsto> t\<lparr>elem := e\<rparr>)\<rparr>" and l': "l' = l"
    by (metis Inr_inject prod.inject)
  have inv': "pool_inv ns h' l" unfolding h' by (rule pool_inv_elem [OF inv t])
  have ik: "?i < ?k" using i by simp
  have "map (\<lambda>a. Inr (payload h' a)) (take ?k ns)
          = (map (\<lambda>a. Inr (payload h a)) (take ?k ns))[?i := Inr e]"
  proof (rule nth_equalityI)
    show "length (map (\<lambda>a. Inr (payload h' a)) (take ?k ns))
            = length ((map (\<lambda>a. Inr (payload h a)) (take ?k ns))[?i := Inr e])" by simp
    fix j assume "j < length (map (\<lambda>a. Inr (payload h' a)) (take ?k ns))"
    then have j: "j < ?k" "j < length ns" using sz by simp_all
    have il: "?i < length ns" using ik sz by (rule less_le_trans)
    have "ns ! j = ns ! ?i \<longleftrightarrow> j = ?i"
      using d j(2) il by (rule nth_eq_iff_index_eq)
    then have "payload h' (ns ! j) = (if j = ?i then e else payload h (ns ! j))"
      unfolding h' payload_def by simp
    then show "map (\<lambda>a. Inr (payload h' a)) (take ?k ns) ! j
            = (map (\<lambda>a. Inr (payload h a)) (take ?k ns))[?i := Inr e] ! j"
      using j ik by (simp add: nth_list_update)
  qed
  then have "contents h' l = (contents h l)[?i := Inr e]"
    using contents_pool [OF inv] contents_pool [OF inv'] by simp
  with inv' l' show ?thesis by simp
qed

lemma run_appends_contents:
  assumes "pool_inv ns h l" "size_l l \<noteq> 0" "run (map Append es) (h, l) = Inr (h', l')"
  shows "contents h' l' = contents h l @ map Inr es"
  using assms
proof (induction es arbitrary: ns h l)
  case Nil
  then show ?case by simp
next
  case (Cons e es)
  from Cons.prems(3) obtain h1 l1 where a: "DLinkedList_append h l e = Inr (h1, l1)"
    and r: "run (map Append es) (h1, l1) = Inr (h', l')"
    by (auto split: sum.splits)
  from append_effect [OF Cons.prems(1,2) a] obtain ns1 where inv1: "pool_inv ns1 h1 l1"
    and s1: "size_l l1 = size_l l + 1" and c1: "contents h1 l1 = contents h l @ [Inr e]"
    by blast
  have "0 \<le> size_l l" using Cons.prems(1) by (simp add: pool_inv_def)
  with s1 have "size_l l1 \<noteq> 0" by simp
  from Cons.IH [OF inv1 this r] c1 show ?case by simp
qed

lemma run_prepends_full:
  assumes "pool_inv ns h l" "size_l l \<noteq> 0" "size_l l = capacity l"
    and "capacity l + int (length es) \<le> INT_MAX"
  shows "\<exists>h' l'. run (map Prepend es) (h, l) = Inr (h', l') \<and>
           size_l l' = size_l l + int (length es) \<and> capacity l' = size_l l' \<and>
           contents h' l' = map Inr (rev es) @ contents h l"
  using assms
proof (induction es arbitrary: ns h l)
  case Nil
  then show ?case by simp
next
  case (Cons e es)
  have ncap: "capacity l \<noteq> INT_MAX" using Cons.prems(4) by auto
  from prepend_grow [OF Cons.prems(1,2,3), of e] ncap obtain h1 l1 where
    p: "DLinkedList_prepend h l e = Inr (h1, l1)" by metis
  from prepend_effect [OF Cons.prems(1,2) p] obtain ns1 where inv1: "pool_inv ns1 h1 l1"
    and s1: "size_l l1 = size_l l + 1" and k1: "capacity l1 = capacity l + 1"
    and c1: "contents h1 l1 = Inr e # contents h l"
    by blast
  have "0 \<le> size_l l" using Cons.prems(1) by (simp add: pool_inv_def)
  with s1 have nz1: "size_l l1 \<noteq> 0" by simp
  have full1: "size_l l1 = capacity l1" using s1 k1 Cons.prems(3) by simp
  have "capacity l1 + int (length es) \<le> INT_MAX" using k1 Cons.prems(4) by simp
  from Cons.IH [OF inv1 nz1 full1 this] obtain h' l' where
    "run (map Prepend es) (h1, l1) = Inr (h', l')"
    "size_l l' = size_l l1 + int (length es)" "capacity l' = size_l l'"
    "contents h' l' = map Inr (rev es) @ contents h1 l1" by blast
  then show ?case using p s1 c1 by simp
qed

lemma run_append:
  "run (cs @ cs') s = (case run cs s of Inl x \<Rightarrow> Inl x | Inr s' \<Rightarrow> run cs' s')"
  by (induction cs arbitrary: s) (auto split: sum.splits)

lemma create_run_Cons:
  "create_run hint [c] = Inr s \<Longrightarrow> create_run hint (c # cs) = run cs s"
  by (auto simp: create_run_def split: sum.splits)

lemma observe_pool:
  assumes "pool_inv ns h l" "size_l l \<noteq> 0"
  shows "observe (Inr (h, l)) =
           Inr (size_l l, capacity l, hd (contents h l), last (contents h l), contents h l)"
  using first_last_pool [OF assms] by (simp add: observe_def DLinkedList_length_def)

lemma observe_InrD:
  assumes "observe r = Inr (n, k, f, la, c)"
  obtains h l where "r = Inr (h, l)" "size_l l = n" "capacity l = k" "contents h l = c"
proof (cases r)
  case (Inl x)
  with assms show ?thesis by (simp add: observe_def)
next
  case (Inr s)
  obtain h l where "s = (h, l)" by (cases s)
  with Inr assms that show ?thesis by (simp add: observe_def DLinkedList_length_def)
qed

section \<open>Insertion into a fresh container\<close>

text \<open>
  On a fresh pool of two or more nodes \<^verbatim>\<open>tail\<close> and \<^verbatim>\<open>list_end\<close> are different nodes, and
  the first \<^verbatim>\<open>DLinkedList_append\<close> writes through \<^verbatim>\<open>tail\<close>: the client reads back the null
  payload of the node at \<^verbatim>\<open>list_start\<close>.
\<close>

lemma first_append_misplaced:
  assumes "2 \<le> hint" "hint < INT_MAX"
  shows "observe (create_run hint [Append e]) = Inr (1, hint, Inr None, Inr None, [Inr None])"
proof -
  let ?n = "nat (max hint 1)"
  have n: "2 \<le> ?n" "max hint 1 = hint" "?n - 1 \<noteq> 0" using assms by auto
  have new: "DLinkedList_new (heap0 :: 'a heap) hint =
           Inr (pool_heap ?n,
                \<lparr>front = Some (?n - 1), tail = Some 0,
                 list_start = Some (?n - 1), list_end = Some (?n - 1),
                 capacity = max hint 1, size_l = 0\<rparr>)"
    using assms by (intro DLinkedList_new_pool) simp_all
  show ?thesis
    using n unfolding create_run_def new
    by (simp add: observe_def contents_def DLinkedList_append_def store_def load_def
        size_incr_def INT_MAX_def pool_heap_def DLinkedList_first_def DLinkedList_last_def
        DLinkedList_get_def search_def DLinkedList_length_def)
qed

text \<open>
  With a spare node in the pool, \<^verbatim>\<open>DLinkedList_prepend\<close> looks for it before \<^verbatim>\<open>list_start\<close>,
  where there is none, and stops at its \<^verbatim>\<open>assert(node != NULL)\<close>.
\<close>

lemma prepend_into_spare_pool_aborts:
  assumes "2 \<le> hint" "hint < INT_MAX"
  shows "create_run hint (Prepend a # Prepend b # cs) = Inl Node_is_null"
proof -
  let ?n = "nat (max hint 1)"
  let ?ns = "rev [0..<?n]"
  obtain h l where new: "DLinkedList_new (heap0 :: 'a heap) hint = Inr (h, l)"
    and l: "size_l l = 0" "capacity l = hint"
    using DLinkedList_new_pool [of hint, where ?'a = 'a] assms by auto
  have inv: "pool_inv ?ns h l" by (rule new_inv [OF new])
  from prepend_empty [OF inv l(1), of a] obtain t where
    p1: "DLinkedList_prepend h l a =
           Inr (h\<lparr>cells := (cells h)(hd ?ns \<mapsto> t\<lparr>elem := a\<rparr>)\<rparr>, l\<lparr>size_l := 1\<rparr>)"
    by metis
  from prepend_inv [OF inv p1] obtain ns' where
    inv': "pool_inv ns' (h\<lparr>cells := (cells h)(hd ?ns \<mapsto> t\<lparr>elem := a\<rparr>)\<rparr>) (l\<lparr>size_l := 1\<rparr>)" ..
  have "DLinkedList_prepend (h\<lparr>cells := (cells h)(hd ?ns \<mapsto> t\<lparr>elem := a\<rparr>)\<rparr>) (l\<lparr>size_l := 1\<rparr>) b
          = Inl Node_is_null"
    using l assms by (intro prepend_spare [OF inv']) simp_all
  with new p1 show ?thesis by (simp add: create_run_def)
qed

text \<open>
  Appending never fails below \<^verbatim>\<open>INT_MAX\<close> elements; the pool grows by one node per element
  beyond its capacity and not otherwise.
\<close>

lemma run_appends_grow:
  assumes "pool_inv ns h l" "max (capacity l) (size_l l + int (length es)) \<le> INT_MAX"
  shows "\<exists>h' l'. run (map Append es) (h, l) = Inr (h', l') \<and>
           size_l l' = size_l l + int (length es) \<and>
           capacity l' = max (capacity l) (size_l l + int (length es))"
  using assms
proof (induction es arbitrary: ns h l)
  case Nil
  then show ?case by (auto simp: pool_inv_def)
next
  case (Cons e es)
  have b: "0 \<le> size_l l" "size_l l \<le> capacity l" "1 \<le> capacity l"
    using Cons.prems(1) by (auto simp: pool_inv_def Suc_le_eq)
  have "\<exists>h1 l1. DLinkedList_append h l e = Inr (h1, l1) \<and> size_l l1 = size_l l + 1 \<and>
           capacity l1 = max (capacity l) (size_l l + 1)"
  proof -
    consider "size_l l = 0" | "size_l l \<noteq> 0" "size_l l = capacity l"
      | "size_l l \<noteq> 0" "size_l l \<noteq> capacity l" by blast
    then show ?thesis
    proof cases
      case 1
      from append_empty [OF Cons.prems(1) 1, of e] obtain t where
        "DLinkedList_append h l e =
           Inr (h\<lparr>cells := (cells h)(last ns \<mapsto> t\<lparr>elem := e\<rparr>)\<rparr>, l\<lparr>size_l := 1\<rparr>)"
        by metis
      with 1 b show ?thesis by simp
    next
      case 2
      have "capacity l \<noteq> INT_MAX" using Cons.prems(2) 2 by auto
      moreover from append_grow [OF Cons.prems(1) 2, of e] obtain t where
        "DLinkedList_append h l e =
           (if capacity l = INT_MAX then Inl Signed_overflow
            else Inr (h\<lparr>cells := (cells h)(brk h \<mapsto> \<lparr>elem = e, next_n = None, prev_n = Some (last ns)\<rparr>,
                                          last ns \<mapsto> t\<lparr>next_n := Some (brk h)\<rparr>),
                       brk := Suc (brk h)\<rparr>,
                     l\<lparr>tail := Some (brk h), capacity := capacity l + 1,
                       list_end := Some (brk h), size_l := size_l l + 1\<rparr>))"
        by metis
      ultimately show ?thesis using 2 by simp
    next
      case 3
      from append_spare [OF Cons.prems(1) 3, of e] obtain t where
        "DLinkedList_append h l e =
           Inr (h\<lparr>cells := (cells h)(ns ! nat (size_l l) \<mapsto> t\<lparr>elem := e\<rparr>)\<rparr>,
                l\<lparr>list_end := Some (ns ! nat (size_l l)), size_l := size_l l + 1\<rparr>)"
        by metis
      with 3 b show ?thesis by simp
    qed
  qed
  then obtain h1 l1 where a: "DLinkedList_append h l e = Inr (h1, l1)"
    and s: "size_l l1 = size_l l + 1" and c: "capacity l1 = max (capacity l) (size_l l + 1)"
    by blast
  from append_inv [OF Cons.prems(1) a] obtain ns1 where inv1: "pool_inv ns1 h1 l1" ..
  have "max (capacity l1) (size_l l1 + int (length es)) \<le> INT_MAX"
    using Cons.prems(2) s c by auto
  from Cons.IH [OF inv1 this] obtain h' l' where "run (map Append es) (h1, l1) = Inr (h', l')"
    "size_l l' = size_l l1 + int (length es)"
    "capacity l' = max (capacity l1) (size_l l1 + int (length es))" by blast
  then show ?case using a s c by auto
qed

lemma first_append_single:
  assumes "0 \<le> hint" "hint \<le> 1"
  shows "observe (create_run hint [Append e]) = Inr (1, 1, Inr e, Inr e, [Inr e])"
proof -
  have n: "nat (max hint 1) = 1" "max hint 1 = 1" using assms by auto
  have new: "DLinkedList_new (heap0 :: 'a heap) hint =
           Inr (pool_heap (nat (max hint 1)),
                \<lparr>front = Some (nat (max hint 1) - 1), tail = Some 0,
                 list_start = Some (nat (max hint 1) - 1), list_end = Some (nat (max hint 1) - 1),
                 capacity = max hint 1, size_l = 0\<rparr>)"
    using assms by (intro DLinkedList_new_pool) (simp_all add: INT_MAX_def)
  show ?thesis
    unfolding create_run_def new n
    by (simp add: observe_def contents_def DLinkedList_append_def store_def load_def
        size_incr_def INT_MAX_def pool_heap_def DLinkedList_first_def DLinkedList_last_def
        DLinkedList_get_def search_def DLinkedList_length_def)
qed

lemma first_prepend:
  assumes "0 \<le> hint" "hint < INT_MAX"
  shows "observe (create_run hint [Prepend e]) = Inr (1, max hint 1, Inr e, Inr e, [Inr e])"
proof -
  have new: "DLinkedList_new (heap0 :: 'a heap) hint =
           Inr (pool_heap (nat (max hint 1)),
                \<lparr>front = Some (nat (max hint 1) - 1), tail = Some 0,
                 list_start = Some (nat (max hint 1) - 1), list_end = Some (nat (max hint 1) - 1),
                 capacity = max hint 1, size_l = 0\<rparr>)"
    using assms by (intro DLinkedList_new_pool) simp_all
  have "0 < nat (max hint 1)" by simp
  then show ?thesis
    unfolding create_run_def new
    by (simp add: observe_def contents_def DLinkedList_prepend_def store_def load_def
        size_incr_def INT_MAX_def pool_heap_def DLinkedList_first_def DLinkedList_last_def
        DLinkedList_get_def search_def DLinkedList_length_def)
qed


text \<open>
  What a client observes after appending \<open>e # es\<close> to a fresh container: the appended
  elements in order, except that with a hint of two or more index 0 reads as the null
  payload.
\<close>

lemma appends_observed:
  assumes hint: "0 \<le> hint" "hint < INT_MAX" and len: "1 + int (length es) \<le> INT_MAX"
  shows "observe (create_run hint (map Append (e # es))) =
           Inr (1 + int (length es), max (max hint 1) (1 + int (length es)),
                (if hint \<le> 1 then Inr e else Inr None),
                last ((if hint \<le> 1 then Inr e else Inr None) # map Inr es),
                (if hint \<le> 1 then Inr e else Inr None) # map Inr es)"
proof -
  let ?x = "if hint \<le> 1 then Inr e else Inr None"
  have "observe (create_run hint [Append e]) = Inr (1, max hint 1, ?x, ?x, [?x])"
  proof (cases "hint \<le> 1")
    case True
    with hint have "max hint 1 = 1" by simp
    with True first_append_single [OF hint(1) True, of e] show ?thesis by simp
  next
    case False
    then have "2 \<le> hint" "max hint 1 = hint" by simp_all
    with False first_append_misplaced [OF this(1) hint(2), of e] show ?thesis by simp
  qed
  from observe_InrD [OF this] obtain h1 l1 where r1: "create_run hint [Append e] = Inr (h1, l1)"
    and s1: "size_l l1 = 1" and k1: "capacity l1 = max hint 1" and c1: "contents h1 l1 = [?x]"
    by metis
  from create_run_inv [OF r1] obtain ns1 where inv1: "pool_inv ns1 h1 l1" ..
  have "max (capacity l1) (size_l l1 + int (length es)) \<le> INT_MAX"
    using s1 k1 hint len by simp
  from run_appends_grow [OF inv1 this] obtain h' l' where
    r: "run (map Append es) (h1, l1) = Inr (h', l')"
    and s: "size_l l' = size_l l1 + int (length es)"
    and k: "capacity l' = max (capacity l1) (size_l l1 + int (length es))" by blast
  from run_inv [OF inv1 r] obtain ns' where inv': "pool_inv ns' h' l'" ..
  have c: "contents h' l' = ?x # map Inr es"
    using run_appends_contents [OF inv1 _ r] s1 c1 by simp
  have nz: "size_l l' \<noteq> 0" using s s1 by simp
  have "create_run hint (map Append (e # es)) = Inr (h', l')"
    using create_run_Cons [OF r1] r by simp
  moreover have "size_l l' = 1 + int (length es)" using s s1 by simp
  moreover have "capacity l' = max (max hint 1) (1 + int (length es))" using k s1 k1 by simp
  ultimately show ?thesis
    using observe_pool [OF inv' nz] unfolding c by (simp only: list.sel)
qed

text \<open>
  Prepending to a fresh container of hint 0 or 1, where every prepend after the first grows
  the pool: the elements appear in reverse order of insertion.
\<close>

lemma prepends_observed:
  assumes hint: "0 \<le> hint" "hint \<le> 1" and len: "1 + int (length es) \<le> INT_MAX"
  shows "observe (create_run hint (map Prepend (e # es))) =
           Inr (1 + int (length es), 1 + int (length es),
                Inr (last (e # es)), Inr e, map Inr (rev (e # es)))"
proof -
  have "hint < INT_MAX" using hint by (simp add: INT_MAX_def)
  moreover have "max hint 1 = 1" using hint by simp
  ultimately have "observe (create_run hint [Prepend e]) = Inr (1, 1, Inr e, Inr e, [Inr e])"
    using first_prepend [OF hint(1), of e] by simp
  from observe_InrD [OF this] obtain h1 l1 where r1: "create_run hint [Prepend e] = Inr (h1, l1)"
    and s1: "size_l l1 = 1" and k1: "capacity l1 = 1" and c1: "contents h1 l1 = [Inr e]"
    by metis
  from create_run_inv [OF r1] obtain ns1 where inv1: "pool_inv ns1 h1 l1" ..
  have "size_l l1 \<noteq> 0" "size_l l1 = capacity l1" "capacity l1 + int (length es) \<le> INT_MAX"
    using s1 k1 len by simp_all
  from run_prepends_full [OF inv1 this] obtain h' l' where
    r: "run (map Prepend es) (h1, l1) = Inr (h', l')"
    and s: "size_l l' = size_l l1 + int (length es)" and k: "capacity l' = size_l l'"
    and c: "contents h' l' = map Inr (rev es) @ contents h1 l1" by blast
  from run_inv [OF inv1 r] obtain ns' where inv': "pool_inv ns' h' l'" ..
  have nz: "size_l l' \<noteq> 0" using s s1 by simp
  have c': "contents h' l' = map Inr (rev (e # es))" using c c1 by simp
  have hd': "hd (map Inr (rev (e # es))) = (Inr (last (e # es)) :: error + 'a option)"
    by (simp add: hd_map hd_rev del: rev.simps last.simps)
  have la': "last (map Inr (rev (e # es))) = (Inr e :: error + 'a option)"
    by simp
  have "create_run hint (map Prepend (e # es)) = Inr (h', l')"
    using create_run_Cons [OF r1] r by simp
  moreover have "size_l l' = 1 + int (length es)" "capacity l' = 1 + int (length es)"
    using s k s1 by simp_all
  ultimately show ?thesis
    using observe_pool [OF inv' nz] unfolding c' hd' la' by (simp only:)
qed

section \<open>The wrapping increments\<close>

text \<open>
  The insertions with wrapping increments agree with the ones that stop, unless the
  container holds \<^verbatim>\<open>INT_MAX\<close> elements.
\<close>

lemma append_wrap_eq:
  assumes "size_l l \<noteq> INT_MAX"
  shows "DLinkedList_append_wrap h l e = DLinkedList_append h l e"
proof -
  consider "size_l l = 0" | "size_l l \<noteq> 0" "size_l l = capacity l"
    | "size_l l \<noteq> 0" "size_l l \<noteq> capacity l" by blast
  then show ?thesis
  proof cases
    case 1
    then show ?thesis
      using assms unfolding DLinkedList_append_wrap_def DLinkedList_append_def
      by (auto simp: size_incr_def int_incr_def split: sum.splits)
  next
    case 2
    then have c: "capacity l \<noteq> INT_MAX" using assms by simp
    show ?thesis
    proof (cases "store (fst (Node_new h (tail l) None e)) (tail l) (\<lambda>n. n\<lparr>next_n := Some (brk h)\<rparr>)")
      case (Inl x)
      with 2 c assms show ?thesis
        unfolding DLinkedList_append_wrap_def DLinkedList_append_def
        by (simp add: Node_new_def Let_def)
    next
      case (Inr h2)
      show ?thesis
      proof (cases "load h2 (list_end l)")
        case (Inl x)
        with Inr 2 c assms show ?thesis
          unfolding DLinkedList_append_wrap_def DLinkedList_append_def
          by (simp add: Node_new_def Let_def)
      next
        case Inr2: (Inr n)
        with Inr 2 c assms show ?thesis
          unfolding DLinkedList_append_wrap_def DLinkedList_append_def
          by (simp add: Node_new_def Let_def size_incr_def int_incr_def)
      qed
    qed
  next
    case 3
    with assms show ?thesis
      unfolding DLinkedList_append_wrap_def DLinkedList_append_def
      by (auto simp: size_incr_def int_incr_def Let_def split: sum.splits)
  qed
qed

lemma prepend_wrap_eq:
  assumes "size_l l \<noteq> INT_MAX"
  shows "DLinkedList_prepend_wrap h l e = DLinkedList_prepend h l e"
proof -
  consider "size_l l = 0" | "size_l l \<noteq> 0" "size_l l = capacity l"
    | "size_l l \<noteq> 0" "size_l l \<noteq> capacity l" by blast
  then show ?thesis
  proof cases
    case 1
    then show ?thesis
      using assms unfolding DLinkedList_prepend_wrap_def DLinkedList_prepend_def
      by (auto simp: size_incr_def int_incr_def split: sum.splits)
  next
    case 2
    then have c: "capacity l \<noteq> INT_MAX" using assms by simp
    show ?thesis
    proof (cases "store (fst (Node_new h None (front l) e)) (front l) (\<lambda>n. n\<lparr>prev_n := Some (brk h)\<rparr>)")
      case (Inl x)
      with 2 c assms show ?thesis
        unfolding DLinkedList_prepend_wrap_def DLinkedList_prepend_def
        by (simp add: Node_new_def Let_def)
    next
      case (Inr h2)
      show ?thesis
      proof (cases "load h2 (list_start l)")
        case (Inl x)
        with Inr 2 c assms show ?thesis
          unfolding DLinkedList_prepend_wrap_def DLinkedList_prepend_def
          by (simp add: Node_new_def Let_def)
      next
        case Inr2: (Inr n)
        with Inr 2 c assms show ?thesis
          unfolding DLinkedList_prepend_wrap_def DLinkedList_prepend_def
          by (simp add: Node_new_def Let_def size_incr_def int_incr_def)
      qed
    qed
  next
    case 3
    with assms show ?thesis
      unfolding DLinkedList_prepend_wrap_def DLinkedList_prepend_def
      by (auto simp: size_incr_def int_incr_def Let_def split: sum.splits)
  qed
qed

lemma set_wrap_eq:
  "\<not> (index = size_l l \<and> size_l l = INT_MAX) \<Longrightarrow>
   DLinkedList_set_wrap h l e index = DLinkedList_set h l e index"
  by (simp add: DLinkedList_set_wrap_def DLinkedList_set_def append_wrap_eq)

lemma exec_wrap_eq:
  "\<not> (inserts c l \<and> size_l l = INT_MAX) \<Longrightarrow> exec_wrap c (h, l) = exec c (h, l)"
  by (cases c) (simp_all add: append_wrap_eq prepend_wrap_eq set_wrap_eq)

lemma run_wrap_eq:
  "below_INT_MAX cs s \<Longrightarrow> run_wrap cs s = run cs s"
proof (induction cs arbitrary: s)
  case Nil
  then show ?case by simp
next
  case (Cons c cs)
  obtain h l where s: "s = (h, l)" by (cases s)
  from Cons.prems s have e: "exec_wrap c (h, l) = exec c (h, l)"
    by (intro exec_wrap_eq) simp
  show ?case
  proof (cases "exec c (h, l)")
    case (Inl x)
    with e s show ?thesis by simp
  next
    case (Inr s')
    with Cons.prems s e have "below_INT_MAX cs s'" by simp
    from Cons.IH [OF this] Inr e s show ?thesis by simp
  qed
qed

lemma create_run_wrap_eq:
  "stays_below_INT_MAX hint cs \<Longrightarrow> create_run_wrap hint cs = create_run hint cs"
  by (auto simp: stays_below_INT_MAX_def create_run_wrap_def create_run_def run_wrap_eq
      split: sum.splits)

lemma reachable_counters:
  "create_run hint cs = Inr (h, l) \<Longrightarrow> 0 \<le> size_l l \<and> size_l l \<le> capacity l \<and> 1 \<le> capacity l"
proof -
  assume "create_run hint cs = Inr (h, l)"
  from create_run_inv [OF this] obtain ns where "pool_inv ns h l" ..
  then have "ns \<noteq> []" "capacity l = int (length ns)" "0 \<le> size_l l" "size_l l \<le> capacity l"
    by (simp_all add: pool_inv_def)
  moreover from this have "0 < length ns" by simp
  ultimately show ?thesis by linarith
qed

text \<open>What the wrapping insertions do at the ends of a chain whose window reaches \<^verbatim>\<open>tail\<close>.\<close>

lemma append_wrap_grow:
  assumes "size_l l \<noteq> 0" "size_l l = capacity l" "tail l = Some a" "list_end l = Some a"
    and "cells h a = Some t" "a \<noteq> brk h"
  shows "DLinkedList_append_wrap h l e =
           Inr (h\<lparr>cells := (cells h)(brk h \<mapsto> \<lparr>elem = e, next_n = None, prev_n = Some a\<rparr>,
                                     a \<mapsto> t\<lparr>next_n := Some (brk h)\<rparr>),
                  brk := Suc (brk h)\<rparr>,
                l\<lparr>tail := Some (brk h), capacity := int_incr (capacity l),
                  list_end := Some (brk h), size_l := int_incr (size_l l)\<rparr>)"
  using assms
  by (simp add: DLinkedList_append_wrap_def Node_new_def store_def load_def Let_def)

lemma append_wrap_zero:
  assumes "size_l l = 0" "tail l = Some a" "cells h a = Some t"
  shows "DLinkedList_append_wrap h l e =
           Inr (h\<lparr>cells := (cells h)(a \<mapsto> t\<lparr>elem := e\<rparr>)\<rparr>, l\<lparr>size_l := 1\<rparr>)"
  using assms
  by (simp add: DLinkedList_append_wrap_def store_def int_incr_def INT_MAX_def)

lemma grow_at_tail:
  assumes ne: "ns \<noteq> []" and d: "distinct ns" and w: "wired h ns"
    and fresh: "\<forall>a\<in>set ns. a < brk h"
    and fr: "front l = Some (hd ns)" and tl: "tail l = Some (last ns)"
    and ls: "list_start l = front l" and le: "list_end l = tail l"
    and sz: "size_l l \<noteq> 0" "size_l l = capacity l"
  obtains h' l' where "DLinkedList_append_wrap h l e = Inr (h', l')"
    and "length (ns @ [brk h]) \<ge> 2" "distinct (ns @ [brk h])" "wired h' (ns @ [brk h])"
    and "\<forall>a\<in>set (ns @ [brk h]). a < brk h'"
    and "front l' = Some (hd (ns @ [brk h]))" "tail l' = Some (last (ns @ [brk h]))"
    and "list_start l' = front l'" "list_end l' = tail l'"
    and "size_l l' = int_incr (size_l l)" "capacity l' = int_incr (capacity l)"
proof -
  from ne have "length ns - 1 < length ns" by simp
  from wiredD [OF w this] obtain t where "cells h (ns ! (length ns - 1)) = Some t" by metis
  with ne have t: "cells h (last ns) = Some t" by (simp add: last_conv_nth)
  from fresh last_in_set [OF ne] have "last ns < brk h" by blast
  then have nb: "last ns \<noteq> brk h" by simp
  from fresh have a: "brk h \<notin> set ns" by auto
  let ?h = "h\<lparr>cells := (cells h)(brk h \<mapsto> \<lparr>elem = e, next_n = None, prev_n = Some (last ns)\<rparr>,
                                     last ns \<mapsto> t\<lparr>next_n := Some (brk h)\<rparr>),
                  brk := Suc (brk h)\<rparr>"
  let ?l = "l\<lparr>tail := Some (brk h), capacity := int_incr (capacity l),
                  list_end := Some (brk h), size_l := int_incr (size_l l)\<rparr>"
  have r: "DLinkedList_append_wrap h l e = Inr (?h, ?l)"
    using le tl by (intro append_wrap_grow [OF sz _ _ t nb]) simp_all
  have w': "wired ?h (ns @ [brk h])" by (rule wired_snoc [OF w ne d a t])
  have len: "length (ns @ [brk h]) \<ge> 2" using ne by (cases ns) simp_all
  show ?thesis
    by (rule that [OF r len _ w']) (use ne d a fresh fr ls in \<open>auto simp: less_Suc_eq\<close>)
qed

lemma wrap_step:
  assumes inv: "pool_inv ns h l" and full: "size_l l = INT_MAX"
  obtains h' l' ns' where "DLinkedList_append_wrap h l e = Inr (h', l')"
    and "wrapped_inv ns' h' l'" "size_l l' = INT_MIN" "capacity l' = INT_MIN"
proof -
  from inv full have c: "capacity l = INT_MAX" and ne: "ns \<noteq> []"
    by (auto simp: pool_inv_def)
  from full c have nz: "size_l l \<noteq> 0" "size_l l = capacity l"
    by (simp_all add: INT_MAX_def)
  from inv have "capacity l = int (length ns)" by (simp add: pool_inv_def)
  with nz have "nat (size_l l) = length ns" by simp
  with inv ne have le: "list_end l = tail l"
    by (simp add: pool_inv_def last_conv_nth)
  from inv have p: "distinct ns" "wired h ns" "\<forall>a\<in>set ns. a < brk h"
    "front l = Some (hd ns)" "tail l = Some (last ns)" "list_start l = front l"
    by (auto simp: pool_inv_def)
  from grow_at_tail [OF ne p(1,2,3,4,5,6) le nz, of e] obtain h' l' where
    r: "DLinkedList_append_wrap h l e = Inr (h', l')"
    and q: "length (ns @ [brk h]) \<ge> 2" "distinct (ns @ [brk h])" "wired h' (ns @ [brk h])"
      "\<forall>a\<in>set (ns @ [brk h]). a < brk h'"
      "front l' = Some (hd (ns @ [brk h]))" "tail l' = Some (last (ns @ [brk h]))"
      "list_start l' = front l'" "list_end l' = tail l'"
      "size_l l' = int_incr (size_l l)" "capacity l' = int_incr (capacity l)"
    by metis
  have s: "size_l l' = INT_MIN" "capacity l' = INT_MIN"
    using q(9,10) full c by (simp_all add: int_incr_def)
  then have "wrapped_inv (ns @ [brk h]) h' l'"
    using q(1-8) unfolding wrapped_inv_def by (simp add: INT_MIN_def)
  with r s that show ?thesis by blast
qed

lemma wrapped_append:
  assumes inv: "wrapped_inv ns h l" and sz: "size_l l = capacity l" "capacity l < 0"
  obtains h' l' ns' where "DLinkedList_append_wrap h l e = Inr (h', l')"
    and "wrapped_inv ns' h' l'" "size_l l' = capacity l'" "capacity l' = capacity l + 1"
proof -
  from inv have ne: "ns \<noteq> []" by (auto simp: wrapped_inv_def)
  from inv have p: "distinct ns" "wired h ns" "\<forall>a\<in>set ns. a < brk h"
    "front l = Some (hd ns)" "tail l = Some (last ns)" "list_start l = front l"
    "list_end l = tail l"
    by (auto simp: wrapped_inv_def)
  have nz: "size_l l \<noteq> 0" using sz by simp
  from grow_at_tail [OF ne p nz sz(1), of e] obtain h' l' where
    r: "DLinkedList_append_wrap h l e = Inr (h', l')"
    and q: "length (ns @ [brk h]) \<ge> 2" "distinct (ns @ [brk h])" "wired h' (ns @ [brk h])"
      "\<forall>a\<in>set (ns @ [brk h]). a < brk h'"
      "front l' = Some (hd (ns @ [brk h]))" "tail l' = Some (last (ns @ [brk h]))"
      "list_start l' = front l'" "list_end l' = tail l'"
      "size_l l' = int_incr (size_l l)" "capacity l' = int_incr (capacity l)"
    by metis
  have "capacity l \<noteq> INT_MAX" using sz by (simp add: INT_MAX_def)
  then have s: "size_l l' = capacity l'" "capacity l' = capacity l + 1"
    using q(9,10) sz by (simp_all add: int_incr_def)
  then have "wrapped_inv (ns @ [brk h]) h' l'"
    using q(1-8) sz unfolding wrapped_inv_def by simp
  with r s that show ?thesis by blast
qed

text \<open>
  From \<^verbatim>\<open>DLinkedList_new(1)\<close>, \<^verbatim>\<open>INT_MAX\<close> appends fill the container to size and capacity
  \<^verbatim>\<open>INT_MAX\<close>; the next append wraps both counters to \<^verbatim>\<open>INT_MIN\<close>; \<open>2\<^sup>3\<^sup>1\<close> more bring both
  to 0; and one more stores through \<^verbatim>\<open>tail\<close> and leaves size 1 over capacity 0.
\<close>

lemma run_wrap_append:
  "run_wrap (cs @ cs') s = (case run_wrap cs s of Inl x \<Rightarrow> Inl x | Inr s' \<Rightarrow> run_wrap cs' s')"
  by (induction cs arbitrary: s) (auto split: sum.splits)

lemma append_succeeds:
  assumes inv: "pool_inv ns h l" and sz: "size_l l < INT_MAX"
  obtains h' l' ns' where "DLinkedList_append h l e = Inr (h', l')" "pool_inv ns' h' l'"
    and "size_l l' = size_l l + 1"
proof -
  from inv have "capacity l \<le> INT_MAX" by (simp add: pool_inv_def)
  with sz have "max (capacity l) (size_l l + int (length [e])) \<le> INT_MAX" by simp
  from run_appends_grow [OF inv this] obtain h' l' where
    r: "run (map Append [e]) (h, l) = Inr (h', l')"
    and s: "size_l l' = size_l l + int (length [e])" by blast
  from r have a: "DLinkedList_append h l e = Inr (h', l')" by (simp split: sum.splits)
  from append_inv [OF inv a] obtain ns' where "pool_inv ns' h' l'" ..
  with a s that show ?thesis by simp
qed

lemma appends_below:
  assumes "pool_inv ns h l" "size_l l + int n \<le> INT_MAX"
  shows "below_INT_MAX (replicate n (Append e)) (h, l) \<and>
         (\<exists>h' l' ns'. run_wrap (replicate n (Append e)) (h, l) = Inr (h', l') \<and>
            pool_inv ns' h' l' \<and> size_l l' = size_l l + int n)"
  using assms
proof (induction n arbitrary: ns h l)
  case 0
  then show ?case by auto
next
  case (Suc n)
  from Suc.prems(2) have sz: "size_l l < INT_MAX" "size_l l \<noteq> INT_MAX" by simp_all
  from append_succeeds [OF Suc.prems(1) sz(1), of e] obtain h1 l1 ns1 where
    a: "DLinkedList_append h l e = Inr (h1, l1)" and inv1: "pool_inv ns1 h1 l1"
    and s1: "size_l l1 = size_l l + 1" by metis
  have w: "DLinkedList_append_wrap h l e = Inr (h1, l1)"
    using append_wrap_eq [OF sz(2), of h e] a by simp
  have "size_l l1 + int n \<le> INT_MAX" using s1 Suc.prems(2) by simp
  from Suc.IH [OF inv1 this] s1 w sz(2) show ?case by auto
qed

lemma fresh_one:
  obtains h l where "DLinkedList_new (heap0 :: 'a heap) 1 = Inr (h, l)"
    and "pool_inv [0] h l" "size_l l = 0" "capacity l = 1"
proof -
  have "(0::int) \<le> 1" "(1::int) < INT_MAX" by (simp_all add: INT_MAX_def)
  from DLinkedList_new_pool [OF this, where ?'a = 'a]
  obtain h l where n: "DLinkedList_new (heap0 :: 'a heap) 1 = Inr (h, l)"
    and c: "size_l l = 0" "capacity l = 1" by simp
  from new_inv [OF n] have "pool_inv [0] h l" by (simp add: upt_rec)
  with n c that show ?thesis by blast
qed

lemma full_after_INT_MAX_appends:
  obtains h l ns where
    "create_run_wrap 1 (replicate (nat INT_MAX) (Append e)) = Inr (h :: 'a heap, l)"
    and "pool_inv ns h l" "size_l l = INT_MAX"
proof -
  from fresh_one [where ?'a = 'a] obtain h0 l0 where
    n: "DLinkedList_new (heap0 :: 'a heap) 1 = Inr (h0, l0)"
    and inv0: "pool_inv [0] h0 l0" and s0: "size_l l0 = 0" by metis
  have "size_l l0 + int (nat INT_MAX) \<le> INT_MAX" using s0 by (simp add: INT_MAX_def)
  from appends_below [OF inv0 this, of e] obtain h l ns where
    "run_wrap (replicate (nat INT_MAX) (Append e)) (h0, l0) = Inr (h, l)"
    "pool_inv ns h l" "size_l l = size_l l0 + int (nat INT_MAX)" by blast
  then show ?thesis using n s0 that by (simp add: create_run_wrap_def INT_MAX_def)
qed

lemma wrapped_after_one_more:
  obtains h l ns where
    "create_run_wrap 1 (replicate (Suc (nat INT_MAX)) (Append e)) = Inr (h :: 'a heap, l)"
    and "wrapped_inv ns h l" "size_l l = INT_MIN" "capacity l = INT_MIN"
proof -
  from full_after_INT_MAX_appends [of e] obtain h1 l1 ns1 where
    r1: "create_run_wrap 1 (replicate (nat INT_MAX) (Append e)) = Inr (h1 :: 'a heap, l1)"
    and inv1: "pool_inv ns1 h1 l1" and s1: "size_l l1 = INT_MAX" by metis
  from wrap_step [OF inv1 s1, of e] obtain h l ns where
    a: "DLinkedList_append_wrap h1 l1 e = Inr (h, l)"
    and w: "wrapped_inv ns h l" "size_l l = INT_MIN" "capacity l = INT_MIN" by metis
  have "replicate (Suc (nat INT_MAX)) (Append e) = replicate (nat INT_MAX) (Append e) @ [Append e]"
    by (simp add: replicate_append_same)
  then have "create_run_wrap 1 (replicate (Suc (nat INT_MAX)) (Append e)) = Inr (h, l)"
    using r1 a
    by (simp only: create_run_wrap_def run_wrap_append split: sum.splits) (auto split: sum.splits)
  with w that show ?thesis by blast
qed

lemma wrapped_appends:
  assumes "wrapped_inv ns h l" "size_l l = capacity l" "capacity l + int n \<le> 0"
  shows "\<exists>h' l' ns'. run_wrap (replicate n (Append e)) (h, l) = Inr (h', l') \<and>
           wrapped_inv ns' h' l' \<and> size_l l' = capacity l' \<and> capacity l' = capacity l + int n"
  using assms
proof (induction n arbitrary: ns h l)
  case 0
  then show ?case by auto
next
  case (Suc n)
  from Suc.prems(3) have neg: "capacity l < 0" by simp
  from wrapped_append [OF Suc.prems(1,2) neg, of e] obtain h1 l1 ns1 where
    a: "DLinkedList_append_wrap h l e = Inr (h1, l1)" and inv1: "wrapped_inv ns1 h1 l1"
    and s1: "size_l l1 = capacity l1" and c1: "capacity l1 = capacity l + 1" by metis
  have "capacity l1 + int n \<le> 0" using c1 Suc.prems(3) by simp
  from Suc.IH [OF inv1 s1 this] a c1 show ?case by auto
qed

lemma wrapped_append_at_zero:
  assumes inv: "wrapped_inv ns h l" and z: "size_l l = 0" "capacity l = 0"
  obtains h' l' where "DLinkedList_append_wrap h l e = Inr (h', l')"
    and "wrapped_inv ns h' l'" "size_l l' = 1" "capacity l' = 0"
proof -
  from inv have ne: "ns \<noteq> []" and w: "wired h ns" and tl: "tail l = Some (last ns)"
    by (auto simp: wrapped_inv_def)
  from ne have "length ns - 1 < length ns" by simp
  from wiredD [OF w this] obtain t where "cells h (ns ! (length ns - 1)) = Some t" by metis
  with ne have t: "cells h (last ns) = Some t" by (simp add: last_conv_nth)
  let ?h = "h\<lparr>cells := (cells h)(last ns \<mapsto> t\<lparr>elem := e\<rparr>)\<rparr>"
  have r: "DLinkedList_append_wrap h l e = Inr (?h, l\<lparr>size_l := 1\<rparr>)"
    by (rule append_wrap_zero [OF z(1) tl t])
  have "wired ?h ns" by (rule wired_elem [OF w t])
  with inv z have "wrapped_inv ns ?h (l\<lparr>size_l := 1\<rparr>)" by (simp add: wrapped_inv_def)
  with r z that show ?thesis by simp
qed

lemma wrapped_ends_differ:
  assumes "wrapped_inv ns h l"
  shows "list_start l \<noteq> list_end l"
proof -
  from assms have len: "2 \<le> length ns" and d: "distinct ns"
    and ls: "list_start l = Some (hd ns)" and le: "list_end l = Some (last ns)"
    by (auto simp: wrapped_inv_def)
  from len have ne: "ns \<noteq> []" by auto
  have "0 < length ns" "length ns - 1 < length ns" "0 \<noteq> length ns - 1" using len by linarith+
  then have "ns ! 0 \<noteq> ns ! (length ns - 1)"
    using d by (simp add: nth_eq_iff_index_eq)
  then show ?thesis using ls le ne by (simp add: hd_conv_nth last_conv_nth)
qed

lemma size_one_after_wrapping_round:
  obtains h l ns where
    "create_run_wrap 1 (replicate (Suc (nat INT_MAX) + nat (- INT_MIN) + 1) (Append e))
       = Inr (h :: 'a heap, l)"
    and "wrapped_inv ns h l" "size_l l = 1" "capacity l = 0"
proof -
  from wrapped_after_one_more [of e] obtain h1 l1 ns1 where
    r1: "create_run_wrap 1 (replicate (Suc (nat INT_MAX)) (Append e)) = Inr (h1 :: 'a heap, l1)"
    and inv1: "wrapped_inv ns1 h1 l1" and s1: "size_l l1 = INT_MIN" "capacity l1 = INT_MIN"
    by metis
  have "size_l l1 = capacity l1" "capacity l1 + int (nat (- INT_MIN)) \<le> 0"
    using s1 by (simp_all add: INT_MIN_def)
  from wrapped_appends [OF inv1 this, of e] obtain h2 l2 ns2 where
    r2: "run_wrap (replicate (nat (- INT_MIN)) (Append e)) (h1, l1) = Inr (h2, l2)"
    and inv2: "wrapped_inv ns2 h2 l2" and s2: "size_l l2 = capacity l2"
    and c2: "capacity l2 = capacity l1 + int (nat (- INT_MIN))" by blast
  have z: "size_l l2 = 0" "capacity l2 = 0" using s2 c2 s1 by (simp_all add: INT_MIN_def)
  from wrapped_append_at_zero [OF inv2 z, of e] obtain h l where
    a: "DLinkedList_append_wrap h2 l2 e = Inr (h, l)"
    and w: "wrapped_inv ns2 h l" "size_l l = 1" "capacity l = 0" by metis
  have "replicate (Suc (nat INT_MAX) + nat (- INT_MIN) + 1) (Append e)
          = replicate (Suc (nat INT_MAX)) (Append e) @ replicate (nat (- INT_MIN)) (Append e)
              @ [Append e]"
    by (simp only: replicate_add) simp
  moreover from r1 obtain s0 where n: "DLinkedList_new (heap0 :: 'a heap) 1 = Inr s0"
    and r1': "run_wrap (replicate (Suc (nat INT_MAX)) (Append e)) s0 = Inr (h1, l1)"
    by (auto simp: create_run_wrap_def split: sum.splits)
  ultimately have "create_run_wrap 1 (replicate (Suc (nat INT_MAX) + nat (- INT_MIN) + 1) (Append e))
      = Inr (h, l)"
    using r2 a by (simp add: create_run_wrap_def run_wrap_append del: replicate.simps)
  with w that show ?thesis by blast
qed

text \<open>The same for \<^verbatim>\<open>DLinkedList_prepend\<close>, and the calls that stop on a wrapped container.\<close>

lemma prepend_wrap_grow:
  assumes "size_l l \<noteq> 0" "size_l l = capacity l" "front l = Some a" "list_start l = Some a"
    and "cells h a = Some t" "a \<noteq> brk h"
  shows "DLinkedList_prepend_wrap h l e =
           Inr (h\<lparr>cells := (cells h)(brk h \<mapsto> \<lparr>elem = e, next_n = Some a, prev_n = None\<rparr>,
                                     a \<mapsto> t\<lparr>prev_n := Some (brk h)\<rparr>),
                  brk := Suc (brk h)\<rparr>,
                l\<lparr>front := Some (brk h), capacity := int_incr (capacity l),
                  list_start := Some (brk h), size_l := int_incr (size_l l)\<rparr>)"
  using assms
  by (simp add: DLinkedList_prepend_wrap_def Node_new_def store_def load_def Let_def)

lemma prepend_wrap_zero:
  assumes "size_l l = 0" "front l = Some a" "cells h a = Some t"
  shows "DLinkedList_prepend_wrap h l e =
           Inr (h\<lparr>cells := (cells h)(a \<mapsto> t\<lparr>elem := e\<rparr>)\<rparr>, l\<lparr>size_l := 1\<rparr>)"
  using assms
  by (simp add: DLinkedList_prepend_wrap_def store_def int_incr_def INT_MAX_def)

lemma grow_at_front:
  assumes ne: "ns \<noteq> []" and d: "distinct ns" and w: "wired h ns"
    and fresh: "\<forall>a\<in>set ns. a < brk h"
    and fr: "front l = Some (hd ns)" and tl: "tail l = Some (last ns)"
    and ls: "list_start l = front l" and le: "list_end l = tail l"
    and sz: "size_l l \<noteq> 0" "size_l l = capacity l"
  obtains h' l' where "DLinkedList_prepend_wrap h l e = Inr (h', l')"
    and "length (brk h # ns) \<ge> 2" "distinct (brk h # ns)" "wired h' (brk h # ns)"
    and "\<forall>a\<in>set (brk h # ns). a < brk h'"
    and "front l' = Some (hd (brk h # ns))" "tail l' = Some (last (brk h # ns))"
    and "list_start l' = front l'" "list_end l' = tail l'"
    and "size_l l' = int_incr (size_l l)" "capacity l' = int_incr (capacity l)"
proof -
  from ne have "0 < length ns" by simp
  from wiredD [OF w this] obtain t where "cells h (ns ! 0) = Some t" by metis
  with ne have t: "cells h (hd ns) = Some t" by (simp add: hd_conv_nth)
  from fresh hd_in_set [OF ne] have "hd ns < brk h" by blast
  then have nb: "hd ns \<noteq> brk h" by simp
  from fresh have a: "brk h \<notin> set ns" by auto
  let ?h = "h\<lparr>cells := (cells h)(brk h \<mapsto> \<lparr>elem = e, next_n = Some (hd ns), prev_n = None\<rparr>,
                                     hd ns \<mapsto> t\<lparr>prev_n := Some (brk h)\<rparr>),
                  brk := Suc (brk h)\<rparr>"
  have r: "DLinkedList_prepend_wrap h l e =
      Inr (?h, l\<lparr>front := Some (brk h), capacity := int_incr (capacity l),
                  list_start := Some (brk h), size_l := int_incr (size_l l)\<rparr>)"
    using ls fr by (intro prepend_wrap_grow [OF sz _ _ t nb]) simp_all
  have w': "wired ?h (brk h # ns)" by (rule wired_cons [OF w ne d a t])
  have len: "length (brk h # ns) \<ge> 2" using ne by (cases ns) simp_all
  show ?thesis
    by (rule that [OF r len _ w']) (use ne d a fresh tl le in \<open>auto simp: less_Suc_eq\<close>)
qed

lemma wrap_step_prepend:
  assumes inv: "pool_inv ns h l" and full: "size_l l = INT_MAX"
  obtains h' l' ns' where "DLinkedList_prepend_wrap h l e = Inr (h', l')"
    and "wrapped_inv ns' h' l'"
proof -
  from inv full have c: "capacity l = INT_MAX" and ne: "ns \<noteq> []"
    by (auto simp: pool_inv_def)
  from full c have nz: "size_l l \<noteq> 0" "size_l l = capacity l"
    by (simp_all add: INT_MAX_def)
  from inv have "capacity l = int (length ns)" by (simp add: pool_inv_def)
  with nz have "nat (size_l l) = length ns" by simp
  with inv ne have le: "list_end l = tail l"
    by (simp add: pool_inv_def last_conv_nth)
  from inv have p: "distinct ns" "wired h ns" "\<forall>a\<in>set ns. a < brk h"
    "front l = Some (hd ns)" "tail l = Some (last ns)" "list_start l = front l"
    by (auto simp: pool_inv_def)
  from grow_at_front [OF ne p(1,2,3,4,5,6) le nz, of e] obtain h' l' where
    r: "DLinkedList_prepend_wrap h l e = Inr (h', l')"
    and q: "length (brk h # ns) \<ge> 2" "distinct (brk h # ns)" "wired h' (brk h # ns)"
      "\<forall>a\<in>set (brk h # ns). a < brk h'"
      "front l' = Some (hd (brk h # ns))" "tail l' = Some (last (brk h # ns))"
      "list_start l' = front l'" "list_end l' = tail l'"
      "size_l l' = int_incr (size_l l)" "capacity l' = int_incr (capacity l)"
    by metis
  have s: "size_l l' = INT_MIN" "capacity l' = INT_MIN"
    using q(9,10) full c by (simp_all add: int_incr_def)
  then have "wrapped_inv (brk h # ns) h' l'"
    using q(1-8) unfolding wrapped_inv_def by (simp add: INT_MIN_def)
  with r that show ?thesis by blast
qed

lemma wrapped_prepend:
  assumes inv: "wrapped_inv ns h l" and sz: "size_l l = capacity l" "capacity l < 0"
  obtains h' l' ns' where "DLinkedList_prepend_wrap h l e = Inr (h', l')"
    and "wrapped_inv ns' h' l'"
proof -
  from inv have ne: "ns \<noteq> []" by (auto simp: wrapped_inv_def)
  from inv have p: "distinct ns" "wired h ns" "\<forall>a\<in>set ns. a < brk h"
    "front l = Some (hd ns)" "tail l = Some (last ns)" "list_start l = front l"
    "list_end l = tail l"
    by (auto simp: wrapped_inv_def)
  have nz: "size_l l \<noteq> 0" using sz by simp
  from grow_at_front [OF ne p nz sz(1), of e] obtain h' l' where
    r: "DLinkedList_prepend_wrap h l e = Inr (h', l')"
    and q: "length (brk h # ns) \<ge> 2" "distinct (brk h # ns)" "wired h' (brk h # ns)"
      "\<forall>a\<in>set (brk h # ns). a < brk h'"
      "front l' = Some (hd (brk h # ns))" "tail l' = Some (last (brk h # ns))"
      "list_start l' = front l'" "list_end l' = tail l'"
      "size_l l' = int_incr (size_l l)" "capacity l' = int_incr (capacity l)"
    by metis
  have "capacity l \<noteq> INT_MAX" using sz by (simp add: INT_MAX_def)
  then have s: "size_l l' = capacity l'" "capacity l' = capacity l + 1"
    using q(9,10) sz by (simp_all add: int_incr_def)
  then have "wrapped_inv (brk h # ns) h' l'"
    using q(1-8) sz unfolding wrapped_inv_def by simp
  with r that show ?thesis by blast
qed

lemma wrapped_prepend_at_zero:
  assumes inv: "wrapped_inv ns h l" and z: "size_l l = 0" "capacity l = 0"
  obtains h' l' where "DLinkedList_prepend_wrap h l e = Inr (h', l')"
    and "wrapped_inv ns h' l'"
proof -
  from inv have ne: "ns \<noteq> []" and w: "wired h ns" and fr: "front l = Some (hd ns)"
    by (auto simp: wrapped_inv_def)
  from ne have "0 < length ns" by simp
  from wiredD [OF w this] obtain t where "cells h (ns ! 0) = Some t" by metis
  with ne have t: "cells h (hd ns) = Some t" by (simp add: hd_conv_nth)
  let ?h = "h\<lparr>cells := (cells h)(hd ns \<mapsto> t\<lparr>elem := e\<rparr>)\<rparr>"
  have r: "DLinkedList_prepend_wrap h l e = Inr (?h, l\<lparr>size_l := 1\<rparr>)"
    by (rule prepend_wrap_zero [OF z(1) fr t])
  have "wired ?h ns" by (rule wired_elem [OF w t])
  with inv z have "wrapped_inv ns ?h (l\<lparr>size_l := 1\<rparr>)" by (simp add: wrapped_inv_def)
  with r that show ?thesis by blast
qed

lemma wrapped_cells:
  assumes "wrapped_inv ns h l"
  obtains a b n m where "list_start l = Some a" "front l = Some a" "cells h a = Some n"
    "prev_n n = None" "list_end l = Some b" "tail l = Some b" "cells h b = Some m"
    "next_n m = None" "a \<noteq> b"
proof -
  from assms have len: "2 \<le> length ns" and w: "wired h ns"
    and fr: "front l = Some (hd ns)" and tl: "tail l = Some (last ns)"
    and ls: "list_start l = front l" and le: "list_end l = tail l"
    by (auto simp: wrapped_inv_def)
  from len have ne: "ns \<noteq> []" by auto
  have i: "0 < length ns" "length ns - 1 < length ns" using len by linarith+
  from wiredD [OF w i(1)] obtain n where n: "cells h (ns ! 0) = Some n" "prev_n n = None"
    by metis
  from wiredD [OF w i(2)] obtain m where m: "cells h (ns ! (length ns - 1)) = Some m"
    "next_n m = None" by (metis Suc_diff_1 i(1) less_irrefl)
  from wrapped_ends_differ [OF assms] ls le fr tl have "hd ns \<noteq> last ns" by simp
  with that [of "hd ns" n "last ns" m] n m fr tl ls le ne show ?thesis
    by (simp add: hd_conv_nth last_conv_nth)
qed

lemma wrapped_size_one_append:
  assumes inv: "wrapped_inv ns h l" and s: "size_l l = 1" "capacity l = 0"
  shows "DLinkedList_append_wrap h l e = Inl Node_is_null"
proof -
  from wrapped_cells [OF inv] obtain b m where "list_end l = Some b" "cells h b = Some m"
    "next_n m = None" by metis
  with s show ?thesis by (simp add: DLinkedList_append_wrap_def load_def)
qed

lemma wrapped_size_one_prepend:
  assumes inv: "wrapped_inv ns h l" and s: "size_l l = 1" "capacity l = 0"
  shows "DLinkedList_prepend_wrap h l e = Inl Node_is_null"
proof -
  from wrapped_cells [OF inv] obtain a n where "list_start l = Some a" "cells h a = Some n"
    "prev_n n = None" by metis
  with s show ?thesis by (simp add: DLinkedList_prepend_wrap_def load_def)
qed

lemma wrapped_append_inv:
  assumes inv: "wrapped_inv ns h l" and r: "DLinkedList_append_wrap h l e = Inr (h', l')"
  shows "\<exists>ns'. wrapped_inv ns' h' l'"
proof -
  from inv consider "size_l l = capacity l" "capacity l < 0" | "size_l l = 0" "capacity l = 0"
    | "size_l l = 1" "capacity l = 0"
    unfolding wrapped_inv_def by force
  then show ?thesis
  proof cases
    case 1
    from wrapped_append [OF inv 1, of e] r show ?thesis by (metis Inr_inject prod.inject)
  next
    case 2
    from wrapped_append_at_zero [OF inv 2, of e] r show ?thesis by (metis Inr_inject prod.inject)
  next
    case 3
    from wrapped_size_one_append [OF inv 3, of e] r show ?thesis by simp
  qed
qed

lemma wrapped_prepend_inv:
  assumes inv: "wrapped_inv ns h l" and r: "DLinkedList_prepend_wrap h l e = Inr (h', l')"
  shows "\<exists>ns'. wrapped_inv ns' h' l'"
proof -
  from inv consider "size_l l = capacity l" "capacity l < 0" | "size_l l = 0" "capacity l = 0"
    | "size_l l = 1" "capacity l = 0"
    unfolding wrapped_inv_def by force
  then show ?thesis
  proof cases
    case 1
    from wrapped_prepend [OF inv 1, of e] r show ?thesis by (metis Inr_inject prod.inject)
  next
    case 2
    from wrapped_prepend_at_zero [OF inv 2, of e] r show ?thesis by (metis Inr_inject prod.inject)
  next
    case 3
    from wrapped_size_one_prepend [OF inv 3, of e] r show ?thesis by simp
  qed
qed

lemma wrapped_set_inv:
  assumes inv: "wrapped_inv ns h l" and r: "DLinkedList_set_wrap h l e index = Inr (h', l')"
  shows "\<exists>ns'. wrapped_inv ns' h' l'"
proof (cases "index = size_l l")
  case True
  with r have "DLinkedList_append_wrap h l e = Inr (h', l')"
    by (simp add: DLinkedList_set_wrap_def split: if_splits)
  from wrapped_append_inv [OF inv this] show ?thesis .
next
  case False
  with r have i: "0 \<le> index" "index < size_l l"
    by (auto simp: DLinkedList_set_wrap_def split: if_splits)
  with inv have s: "size_l l = 1" "index = 0" unfolding wrapped_inv_def by auto
  from wrapped_cells [OF inv] obtain a n where a: "list_start l = Some a" "cells h a = Some n"
    by metis
  with r s have h': "h' = h\<lparr>cells := (cells h)(a \<mapsto> n\<lparr>elem := e\<rparr>)\<rparr>" and l': "l' = l"
    by (simp_all add: DLinkedList_set_wrap_def search_def store_def)
  from inv have w: "wired h ns" by (simp add: wrapped_inv_def)
  have "wired h' ns" unfolding h' by (rule wired_elem [OF w a(2)])
  with inv have "wrapped_inv ns h' l'" unfolding l' by (simp add: wrapped_inv_def h')
  then show ?thesis ..
qed

text \<open>
  Every state the wrapping functions reach is a well-formed container or a wrapped one.
\<close>

lemma exec_wrap_inv:
  assumes "wrap_inv h l" "exec_wrap c (h, l) = Inr (h', l')"
  shows "wrap_inv h' l'"
proof -
  from assms(1) consider ns where "pool_inv ns h l" "\<not> (inserts c l \<and> size_l l = INT_MAX)"
    | ns where "pool_inv ns h l" "inserts c l" "size_l l = INT_MAX"
    | ns where "wrapped_inv ns h l"
    unfolding wrap_inv_def by blast
  then show ?thesis
  proof cases
    case 1
    from exec_wrap_eq [OF 1(2)] assms(2) have "exec c (h, l) = Inr (h', l')" by simp
    from exec_inv [OF 1(1) this] show ?thesis by (simp add: wrap_inv_def)
  next
    case 2
    show ?thesis
    proof (cases c)
      case (Append e)
      with wrap_step [OF 2(1,3), of e] assms(2) show ?thesis
        by (metis Inr_inject exec_wrap.simps(1) prod.inject wrap_inv_def)
    next
      case (Prepend e)
      with wrap_step_prepend [OF 2(1,3), of e] assms(2) show ?thesis
        by (metis Inr_inject exec_wrap.simps(2) prod.inject wrap_inv_def)
    next
      case (Set e i)
      with 2(2) have "i = size_l l" by simp
      with Set assms(2) 2(3) have "DLinkedList_append_wrap h l e = Inr (h', l')"
        by (simp add: DLinkedList_set_wrap_def INT_MAX_def)
      with wrap_step [OF 2(1,3), of e] show ?thesis
        by (metis Inr_inject prod.inject wrap_inv_def)
    qed (use 2(2) in simp_all)
  next
    case 3
    have "\<exists>ns'. wrapped_inv ns' h' l'"
      using assms(2) 3 wrapped_append_inv [OF 3] wrapped_prepend_inv [OF 3] wrapped_set_inv [OF 3]
      by (cases c)
         (auto simp: DLinkedList_remove_def DLinkedList_removehi_def DLinkedList_removelo_def
               split: sum.splits)
    then show ?thesis by (simp add: wrap_inv_def)
  qed
qed

lemma run_wrap_inv:
  "wrap_inv h l \<Longrightarrow> run_wrap cs (h, l) = Inr (h', l') \<Longrightarrow> wrap_inv h' l'"
proof (induction cs arbitrary: h l)
  case Nil
  then show ?case by simp
next
  case (Cons c cs)
  from Cons.prems(2) obtain h1 l1 where e: "exec_wrap c (h, l) = Inr (h1, l1)"
    and r: "run_wrap cs (h1, l1) = Inr (h', l')"
    by (auto split: sum.splits)
  from Cons.IH [OF exec_wrap_inv [OF Cons.prems(1) e] r] show ?case .
qed

lemma create_run_wrap_inv:
  assumes "create_run_wrap hint cs = Inr (h, l)"
  shows "wrap_inv h l"
proof -
  from assms obtain h0 l0 where n: "DLinkedList_new heap0 hint = Inr (h0, l0)"
    and r: "run_wrap cs (h0, l0) = Inr (h, l)"
    by (auto simp: create_run_wrap_def split: sum.splits)
  from new_inv [OF n] have "wrap_inv h0 l0" by (auto simp: wrap_inv_def)
  from run_wrap_inv [OF this r] show ?thesis .
qed

text \<open>
  The anchoring of the window and the contract of \<^verbatim>\<open>get\<close>, \<^verbatim>\<open>first\<close> and \<^verbatim>\<open>last\<close> do not
  depend on the counters staying in range: they hold in every state the wrapping
  functions reach.
\<close>

lemma pool_inv_window:
  assumes inv: "pool_inv ns h l"
  shows "list_start l = front l \<and> walk_prev h (list_start l) 1 = Inr None \<and>
         spare_after_end h l
           (nat (if size_l l = 0 then capacity l - 1 else capacity l - size_l l))"
proof -
  from inv have w: "wired h ns" and ne: "ns \<noteq> []" and ls: "list_start l = Some (ns ! 0)"
    and fr: "list_start l = front l"
    and le: "list_end l = Some (ns ! (nat (size_l l) - 1))"
    and tl: "tail l = Some (ns ! (length ns - 1))"
    and cap: "capacity l = int (length ns)"
    and sz: "nat (size_l l) \<le> length ns" "0 \<le> size_l l"
    by (auto simp: pool_inv_def hd_conv_nth last_conv_nth)
  let ?j = "nat (size_l l) - 1"
  let ?k = "nat (if size_l l = 0 then capacity l - 1 else capacity l - size_l l)"
  from ne have n0: "0 < length ns" by simp
  from pool_inv_cell [OF inv n0] obtain n where "cells h (ns ! 0) = Some n" "prev_n n = None"
    by metis
  then have 1: "walk_prev h (list_start l) 1 = Inr None" using ls by (simp add: load_def)
  have jk: "?j + ?k = length ns - 1" using sz cap n0 by (auto simp: nat_diff_distrib)
  then have "?j + ?k < length ns" using n0 by simp
  from walk_next_wired [OF w this] have 2: "walk_next h (list_end l) ?k = Inr (tail l)"
    using le tl jk by simp
  have "length ns - 1 < length ns" using n0 by simp
  from pool_inv_cell [OF inv this] obtain m where
    "cells h (ns ! (length ns - 1)) = Some m" "next_n m = None"
    by (metis Suc_diff_1 n0 less_irrefl)
  then have 3: "walk_next h (tail l) 1 = Inr None" using tl by (simp add: load_def)
  from fr 1 2 3 show ?thesis by (simp add: spare_after_end_def)
qed


lemma pool_inv_contract:
  assumes inv: "pool_inv ns h l"
  shows "(index < 0 \<or> size_l l \<le> index \<longrightarrow>
            DLinkedList_get h l index = Inl Precondition_violated) \<and>
         (0 \<le> index \<and> index < size_l l \<longrightarrow>
            (\<exists>a n. walk_next h (list_start l) (nat index) = Inr (Some a) \<and> cells h a = Some n \<and>
                   DLinkedList_get h l index = Inr (elem n))) \<and>
         (size_l l = 0 \<longrightarrow> DLinkedList_first h l = Inr None \<and> DLinkedList_last h l = Inr None) \<and>
         (size_l l \<noteq> 0 \<longrightarrow>
            (\<exists>a n. list_start l = Some a \<and> cells h a = Some n \<and>
                   DLinkedList_first h l = Inr (elem n)) \<and>
            (\<exists>a n. list_end l = Some a \<and> cells h a = Some n \<and>
                   DLinkedList_last h l = Inr (elem n)))"
proof -
  from inv have w: "wired h ns" and ne: "ns \<noteq> []" and ls: "list_start l = Some (ns ! 0)"
    and le: "list_end l = Some (ns ! (nat (size_l l) - 1))"
    and sz: "nat (size_l l) \<le> length ns" "0 \<le> size_l l"
    by (auto simp: pool_inv_def hd_conv_nth)
  have 1: "index < 0 \<or> size_l l \<le> index \<longrightarrow>
            DLinkedList_get h l index = Inl Precondition_violated"
    by (auto simp: DLinkedList_get_def)
  have 2: "0 \<le> index \<and> index < size_l l \<longrightarrow>
            (\<exists>a n. walk_next h (list_start l) (nat index) = Inr (Some a) \<and> cells h a = Some n \<and>
                   DLinkedList_get h l index = Inr (elem n))"
  proof
    assume "0 \<le> index \<and> index < size_l l"
    then have i: "0 \<le> index" "index < size_l l" by simp_all
    have k: "nat index < length ns" using i sz by simp
    have s: "search h l index = Inr (Some (ns ! nat index))" by (rule search_pool [OF inv i])
    have "walk_next h (Some (ns ! 0)) (nat index) = Inr (Some (ns ! (0 + nat index)))"
      using k by (intro walk_next_wired [OF w]) simp
    then have wn: "walk_next h (list_start l) (nat index) = Inr (Some (ns ! nat index))"
      using ls by simp
    from pool_inv_cell [OF inv k] obtain n where n: "cells h (ns ! nat index) = Some n" by metis
    have "DLinkedList_get h l index = Inr (elem n)"
      using i s n by (simp add: DLinkedList_get_def load_def)
    with wn n show "\<exists>a n. walk_next h (list_start l) (nat index) = Inr (Some a) \<and>
        cells h a = Some n \<and> DLinkedList_get h l index = Inr (elem n)" by blast
  qed
  have 3: "size_l l = 0 \<longrightarrow> DLinkedList_first h l = Inr None \<and> DLinkedList_last h l = Inr None"
    by (simp add: DLinkedList_first_def DLinkedList_last_def)
  have 4: "size_l l \<noteq> 0 \<longrightarrow>
            (\<exists>a n. list_start l = Some a \<and> cells h a = Some n \<and>
                   DLinkedList_first h l = Inr (elem n)) \<and>
            (\<exists>a n. list_end l = Some a \<and> cells h a = Some n \<and>
                   DLinkedList_last h l = Inr (elem n))"
  proof
    assume nz: "size_l l \<noteq> 0"
    from ne have "0 < length ns" by simp
    from pool_inv_cell [OF inv this] obtain n where n: "cells h (ns ! 0) = Some n" by metis
    have "nat (size_l l) - 1 < length ns" using sz nz by auto
    from pool_inv_cell [OF inv this] obtain m where
      m: "cells h (ns ! (nat (size_l l) - 1)) = Some m" by metis
    have "DLinkedList_first h l = Inr (elem n)"
      using nz ls n by (simp add: DLinkedList_first_def load_def)
    moreover have "DLinkedList_last h l = Inr (elem m)"
      using nz le m by (simp add: DLinkedList_last_def load_def)
    ultimately show "(\<exists>a n. list_start l = Some a \<and> cells h a = Some n \<and>
                   DLinkedList_first h l = Inr (elem n)) \<and>
            (\<exists>a n. list_end l = Some a \<and> cells h a = Some n \<and>
                   DLinkedList_last h l = Inr (elem n))"
      using ls le n m by blast
  qed
  from 1 2 3 4 show ?thesis by blast
qed


lemma reachable_search:
  assumes r: "create_run hint cs = Inr (h, l)" and i: "0 \<le> index" "index < size_l l"
  shows "search h l index = walk_next h (list_start l) (nat index) \<and>
         (\<exists>a n. search h l index = Inr (Some a) \<and> cells h a = Some n) \<and>
         (index = 0 \<longrightarrow> search h l index = Inr (list_start l)) \<and>
         (index = size_l l - 1 \<longrightarrow> search h l index = Inr (list_end l)) \<and>
         (index \<noteq> 0 \<and> index \<noteq> size_l l - 1 \<and> index < size_l l div 2 \<longrightarrow>
            search h l index = search_fwd h (list_start l) 0 index) \<and>
         (index \<noteq> 0 \<and> index \<noteq> size_l l - 1 \<and> \<not> index < size_l l div 2 \<longrightarrow>
            search h l index = search_bwd h (list_end l) (size_l l - 1) index \<and>
            search h l index = walk_prev h (list_end l) (nat (size_l l - 1 - index)))"
proof -
  from create_run_inv [OF r] obtain ns where inv: "pool_inv ns h l" ..
  then have w: "wired h ns" and ls: "list_start l = Some (ns ! 0)"
    and sz: "nat (size_l l) \<le> length ns"
    by (auto simp: pool_inv_def hd_conv_nth)
  have s: "search h l index = Inr (Some (ns ! nat index))" by (rule search_pool [OF inv i])
  have k: "nat index < length ns" using i sz by simp
  have "walk_next h (Some (ns ! 0)) (nat index) = Inr (Some (ns ! (0 + nat index)))"
    using k by (intro walk_next_wired [OF w]) simp
  then have 1: "search h l index = walk_next h (list_start l) (nat index)"
    using s ls by simp
  from pool_inv_cell [OF inv k] obtain n where "cells h (ns ! nat index) = Some n" by metis
  with s have 2: "\<exists>a n. search h l index = Inr (Some a) \<and> cells h a = Some n" by blast
  have 3: "index = 0 \<longrightarrow> search h l index = Inr (list_start l)"
    using i by (simp add: search_def)
  have 4: "index = size_l l - 1 \<longrightarrow> search h l index = Inr (list_end l)"
    using i s inv by (auto simp: pool_inv_def nat_diff_distrib)
  have 5: "index \<noteq> 0 \<and> index \<noteq> size_l l - 1 \<and> index < size_l l div 2 \<longrightarrow>
            search h l index = search_fwd h (list_start l) 0 index"
    using i by (simp add: search_def split_search_def)
  have 6: "index \<noteq> 0 \<and> index \<noteq> size_l l - 1 \<and> \<not> index < size_l l div 2 \<longrightarrow>
            search h l index = search_bwd h (list_end l) (size_l l - 1) index \<and>
            search h l index = walk_prev h (list_end l) (nat (size_l l - 1 - index))"
    using i by (simp add: search_def split_search_def search_bwd_walk)
  from 1 2 3 4 5 6 show ?thesis by blast
qed



lemma wrapped_window:
  assumes inv: "wrapped_inv ns h l"
  shows "list_start l = front l \<and> walk_prev h (list_start l) 1 = Inr None \<and>
         spare_after_end h l
           (nat (if size_l l = 0 then capacity l - 1 else capacity l - size_l l))"
proof -
  from wrapped_cells [OF inv] obtain a b n m where c: "list_start l = Some a" "front l = Some a"
    "cells h a = Some n" "prev_n n = None" "list_end l = Some b" "tail l = Some b"
    "cells h b = Some m" "next_n m = None" by metis
  from inv have "capacity l \<le> 0" "size_l l = capacity l \<or> size_l l = 1 \<and> capacity l = 0"
    by (simp_all add: wrapped_inv_def)
  then have k: "nat (if size_l l = 0 then capacity l - 1 else capacity l - size_l l) = 0"
    by auto
  show ?thesis unfolding k using c by (simp add: spare_after_end_def load_def)
qed

lemma window_anchored_wrap:
  assumes r: "create_run_wrap hint cs = Inr (h, l)"
  shows "list_start l = front l \<and> walk_prev h (list_start l) 1 = Inr None \<and>
         spare_after_end h l
           (nat (if size_l l = 0 then capacity l - 1 else capacity l - size_l l))"
  using create_run_wrap_inv [OF r] pool_inv_window wrapped_window
  unfolding wrap_inv_def by blast

lemma wrapped_contract:
  assumes inv: "wrapped_inv ns h l"
  shows "(index < 0 \<or> size_l l \<le> index \<longrightarrow>
            DLinkedList_get h l index = Inl Precondition_violated) \<and>
         (0 \<le> index \<and> index < size_l l \<longrightarrow>
            (\<exists>a n. walk_next h (list_start l) (nat index) = Inr (Some a) \<and> cells h a = Some n \<and>
                   DLinkedList_get h l index = Inr (elem n))) \<and>
         (size_l l = 0 \<longrightarrow> DLinkedList_first h l = Inr None \<and> DLinkedList_last h l = Inr None) \<and>
         (size_l l \<noteq> 0 \<longrightarrow>
            (\<exists>a n. list_start l = Some a \<and> cells h a = Some n \<and>
                   DLinkedList_first h l = Inr (elem n)) \<and>
            (\<exists>a n. list_end l = Some a \<and> cells h a = Some n \<and>
                   DLinkedList_last h l = Inr (elem n)))"
proof -
  from wrapped_cells [OF inv] obtain a b n m where c: "list_start l = Some a"
    "cells h a = Some n" "list_end l = Some b" "cells h b = Some m" by metis
  have 1: "index < 0 \<or> size_l l \<le> index \<longrightarrow>
            DLinkedList_get h l index = Inl Precondition_violated"
    by (auto simp: DLinkedList_get_def)
  have 2: "0 \<le> index \<and> index < size_l l \<longrightarrow>
            (\<exists>a n. walk_next h (list_start l) (nat index) = Inr (Some a) \<and> cells h a = Some n \<and>
                   DLinkedList_get h l index = Inr (elem n))"
  proof
    assume i: "0 \<le> index \<and> index < size_l l"
    with inv have s: "size_l l = 1" "index = 0" unfolding wrapped_inv_def by auto
    with c show "\<exists>a n. walk_next h (list_start l) (nat index) = Inr (Some a) \<and>
        cells h a = Some n \<and> DLinkedList_get h l index = Inr (elem n)"
      by (simp add: DLinkedList_get_def search_def load_def)
  qed
  have 3: "size_l l = 0 \<longrightarrow> DLinkedList_first h l = Inr None \<and> DLinkedList_last h l = Inr None"
    by (simp add: DLinkedList_first_def DLinkedList_last_def)
  have 4: "size_l l \<noteq> 0 \<longrightarrow>
            (\<exists>a n. list_start l = Some a \<and> cells h a = Some n \<and>
                   DLinkedList_first h l = Inr (elem n)) \<and>
            (\<exists>a n. list_end l = Some a \<and> cells h a = Some n \<and>
                   DLinkedList_last h l = Inr (elem n))"
    using c by (simp add: DLinkedList_first_def DLinkedList_last_def load_def)
  from 1 2 3 4 show ?thesis by blast
qed

lemma get_first_last_wrap:
  assumes r: "create_run_wrap hint cs = Inr (h, l)"
  shows "(index < 0 \<or> size_l l \<le> index \<longrightarrow>
            DLinkedList_get h l index = Inl Precondition_violated) \<and>
         (0 \<le> index \<and> index < size_l l \<longrightarrow>
            (\<exists>a n. walk_next h (list_start l) (nat index) = Inr (Some a) \<and> cells h a = Some n \<and>
                   DLinkedList_get h l index = Inr (elem n))) \<and>
         (size_l l = 0 \<longrightarrow> DLinkedList_first h l = Inr None \<and> DLinkedList_last h l = Inr None) \<and>
         (size_l l \<noteq> 0 \<longrightarrow>
            (\<exists>a n. list_start l = Some a \<and> cells h a = Some n \<and>
                   DLinkedList_first h l = Inr (elem n)) \<and>
            (\<exists>a n. list_end l = Some a \<and> cells h a = Some n \<and>
                   DLinkedList_last h l = Inr (elem n)))"
  using create_run_wrap_inv [OF r] pool_inv_contract [of _ h l index] wrapped_contract [of _ h l index]
  unfolding wrap_inv_def by blast

section \<open>Evaluating concrete runs\<close>

lemmas run_simps =
  create_run_def DLinkedList_new_def malloc_hint_def malloc_hint_loop.simps Node_new_def
  store_def load_def heap0_def INT_MAX_def Let_def
  DLinkedList_append_def DLinkedList_prepend_def DLinkedList_set_def DLinkedList_get_def
  DLinkedList_first_def DLinkedList_last_def DLinkedList_length_def
  DLinkedList_remove_def DLinkedList_removehi_def DLinkedList_removelo_def
  size_incr_def search_def split_search_def search_fwd.simps search_bwd.simps

lemmas wrap_simps =
  create_run_wrap_def stays_below_INT_MAX_def DLinkedList_append_wrap_def
  DLinkedList_prepend_wrap_def DLinkedList_set_wrap_def int_incr_def INT_MIN_def

section \<open>Properties of the container\<close>

text \<open>
  C1: after constructing a container and appending \<open>a\<close>, \<open>b\<close>, \<open>c\<close> the length is 3, the
  first element is \<open>a\<close>, the last is \<open>c\<close> and index 1 holds \<open>b\<close>. With hint 2 the code gives
  length 3, last \<open>c\<close> and \<open>b\<close> at index 1, but the first element and index 0 read as the null
  payload: the append into the empty container stored \<open>a\<close> in the node at \<^verbatim>\<open>tail\<close>, not in
  the node at \<^verbatim>\<open>list_end\<close>, and the next append overwrote it.
\<close>

theorem append_abc_hint2_first_is_null:
  "observe (create_run 2 [Append (Some ''a''), Append (Some ''b''), Append (Some ''c'')])
     = Inr (3, 3, Inr None, Inr (Some ''c''), [Inr None, Inr (Some ''b''), Inr (Some ''c'')])"
  by (simp add: observe_def contents_def run_simps upt_rec)

text \<open>
  C2: appending \<open>n > h\<close> elements to a container created with hint \<open>h\<close> makes the capacity
  exactly \<open>n\<close>, and index \<open>i\<close> then holds the \<open>i\<close>-th appended element. With hint 3 and four
  appends the capacity is 4 as claimed, but index 0 holds the null payload instead of the
  first appended element.
\<close>

theorem append_four_hint3_index0_is_null:
  "observe (create_run 3 [Append (Some ''p''), Append (Some ''q''), Append (Some ''r''),
                          Append (Some ''s'')])
     = Inr (4, 4, Inr None, Inr (Some ''s''),
            [Inr None, Inr (Some ''q''), Inr (Some ''r''), Inr (Some ''s'')])"
  by (simp add: observe_def contents_def run_simps upt_rec)

text \<open>
  C3: prepending \<open>n \<ge> 1\<close> elements to a fresh container succeeds for every hint. With hint 2
  the second prepend stops at \<^verbatim>\<open>assert(node != NULL)\<close>: the pool has a spare node, but it lies
  after \<^verbatim>\<open>list_end\<close>, and \<^verbatim>\<open>list_start->prev\<close> is null.
\<close>

theorem prepend_twice_hint2_aborts:
  "create_run 2 [Prepend (Some ''a''), Prepend (Some ''b'')] = Inl Node_is_null"
  by (simp add: run_simps)




text \<open>
  C5, as stated: in every state reached from \<^verbatim>\<open>DLinkedList_new(hint)\<close> by any sequence of
  public calls, \<open>0 \<le> size \<le> capacity\<close> and \<open>capacity \<ge> 1\<close>. After \<^verbatim>\<open>DLinkedList_new(1)\<close> and
  \<open>2\<^sup>3\<^sup>1\<close> appends the code as compiled returns with size and capacity both \<^verbatim>\<open>INT_MIN\<close>: the
  append into the container of \<^verbatim>\<open>INT_MAX\<close> elements increments both counters unchecked.
\<close>

theorem counters_wrap_counterexample:
  "counters (create_run_wrap 1 (replicate 2147483648 (Append (None :: string option))))
     = Inr (- 2147483648, - 2147483648)"
proof -
  have n: "(2147483648 :: nat) = Suc (nat INT_MAX)" by (simp add: INT_MAX_def)
  from wrapped_after_one_more [of "None :: string option"] obtain h l ns where
    "create_run_wrap 1 (replicate (Suc (nat INT_MAX)) (Append None)) = Inr (h :: string heap, l)"
    "size_l l = INT_MIN" "capacity l = INT_MIN" by metis
  then show ?thesis unfolding n by (simp add: counters_def INT_MIN_def)
qed

text \<open>
  C5, amended: in every state reached from \<^verbatim>\<open>DLinkedList_new(hint)\<close> by a sequence of public
  calls none of which inserts into a container of size \<^verbatim>\<open>INT_MAX\<close>, \<open>0 \<le> size \<le> capacity\<close>
  and \<open>capacity \<ge> 1\<close>. A run that exists at all started from a hint accepted by the
  constructor, so \<open>hint \<ge> 0\<close> needs no separate hypothesis.
\<close>

theorem size_within_capacity_below_INT_MAX:
  assumes "create_run_wrap hint cs = Inr (h, l)" "stays_below_INT_MAX hint cs"
  shows "0 \<le> size_l l \<and> size_l l \<le> capacity l \<and> 1 \<le> capacity l"
proof -
  from assms have "create_run hint cs = Inr (h, l)" by (simp add: create_run_wrap_eq)
  then show ?thesis by (rule reachable_counters)
qed

theorem size_within_capacity_below_INT_MAX_witness:
  "\<exists>h l. create_run_wrap 2 [Append (Some ''x''), Append (Some ''y''), Append (Some ''z''),
                        Prepend (Some ''w''), Set (Some ''v'') 1, Get 2, First, Last, Length,
                        Remove 0, RemoveHi, RemoveLo] = Inr (h, l) \<and>
         stays_below_INT_MAX 2 [Append (Some ''x''), Append (Some ''y''), Append (Some ''z''),
                        Prepend (Some ''w''), Set (Some ''v'') 1, Get 2, First, Last, Length,
                        Remove 0, RemoveHi, RemoveLo] \<and>
         0 \<le> size_l l \<and> size_l l \<le> capacity l \<and> 1 \<le> capacity l"
proof -
  let ?cs = "[Append (Some ''x''), Append (Some ''y''), Append (Some ''z''),
                        Prepend (Some ''w''), Set (Some ''v'') 1, Get 2, First, Last, Length,
                        Remove 0, RemoveHi, RemoveLo]"
  have b: "stays_below_INT_MAX 2 ?cs"
    by (simp add: wrap_simps run_simps)
  have "\<exists>h l. create_run_wrap 2 ?cs = Inr (h, l)"
    by (simp add: wrap_simps run_simps)
  then obtain h l where r: "create_run_wrap 2 ?cs = Inr (h, l)" by blast
  from size_within_capacity_below_INT_MAX [OF r b] r b show ?thesis by blast
qed

text \<open>
  C6, as stated: in every reachable container \<^verbatim>\<open>search\<close> returns \<^verbatim>\<open>list_end\<close> for index
  \<open>size - 1\<close>. After \<^verbatim>\<open>DLinkedList_new(1)\<close> and \<open>2\<^sup>3\<^sup>2 + 1\<close> appends the code as compiled holds
  size 1 over a pool of \<open>2\<^sup>3\<^sup>2\<close> nodes, with \<^verbatim>\<open>list_end\<close> at \<^verbatim>\<open>tail\<close>; \<^verbatim>\<open>search\<close> at index
  \<open>0 = size - 1\<close> returns \<^verbatim>\<open>list_start\<close>, which is not \<^verbatim>\<open>list_end\<close>.
\<close>

theorem search_last_not_list_end_counterexample:
  "search_hits (create_run_wrap 1 (replicate 4294967297 (Append (None :: string option)))) 0
     = Inr (1, True, False)"
proof -
  have n: "(4294967297 :: nat) = Suc (nat INT_MAX) + nat (- INT_MIN) + 1"
    by (simp add: INT_MAX_def INT_MIN_def)
  from size_one_after_wrapping_round [of "None :: string option"] obtain h l ns where
    r: "create_run_wrap 1 (replicate (Suc (nat INT_MAX) + nat (- INT_MIN) + 1) (Append None))
         = Inr (h :: string heap, l)"
    and w: "wrapped_inv ns h l" and s: "size_l l = 1" by metis
  have "search h l 0 = Inr (list_start l)" using s by (simp add: search_def)
  moreover have "list_start l \<noteq> list_end l" by (rule wrapped_ends_differ [OF w])
  ultimately show ?thesis unfolding n r using s by (simp add: search_hits_def)
qed

text \<open>
  C6, amended: in a container reached by a sequence of public calls none of which inserts
  into a container of size \<^verbatim>\<open>INT_MAX\<close>, and for \<open>0 \<le> index < size\<close>, \<^verbatim>\<open>search\<close> returns
  \<^verbatim>\<open>list_start\<close> for index 0 and \<^verbatim>\<open>list_end\<close> for index \<open>size - 1\<close>; otherwise it runs the
  forward loop from \<^verbatim>\<open>list_start\<close> when \<open>index < size / 2\<close> and the backward loop from
  \<^verbatim>\<open>list_end\<close> when not. In every case the result is an allocated node, the one reached from
  \<^verbatim>\<open>list_start\<close> by exactly \<open>index\<close> steps along \<^verbatim>\<open>next\<close>.
\<close>

theorem search_finds_position_below_INT_MAX:
  assumes r: "create_run_wrap hint cs = Inr (h, l)" and b: "stays_below_INT_MAX hint cs"
    and i: "0 \<le> index" "index < size_l l"
  shows "search h l index = walk_next h (list_start l) (nat index) \<and>
         (\<exists>a n. search h l index = Inr (Some a) \<and> cells h a = Some n) \<and>
         (index = 0 \<longrightarrow> search h l index = Inr (list_start l)) \<and>
         (index = size_l l - 1 \<longrightarrow> search h l index = Inr (list_end l)) \<and>
         (index \<noteq> 0 \<and> index \<noteq> size_l l - 1 \<and> index < size_l l div 2 \<longrightarrow>
            search h l index = search_fwd h (list_start l) 0 index) \<and>
         (index \<noteq> 0 \<and> index \<noteq> size_l l - 1 \<and> \<not> index < size_l l div 2 \<longrightarrow>
            search h l index = search_bwd h (list_end l) (size_l l - 1) index \<and>
            search h l index = walk_prev h (list_end l) (nat (size_l l - 1 - index)))"
proof -
  from r b have "create_run hint cs = Inr (h, l)" by (simp add: create_run_wrap_eq)
  from reachable_search [OF this i] show ?thesis .
qed

theorem search_finds_position_below_INT_MAX_witness:
  "\<exists>h l. create_run_wrap 1 [Append (Some ''a''), Append (Some ''b''), Append (Some ''c''),
                        Append (Some ''d''), Append (Some ''e'')] = Inr (h, l) \<and>
         stays_below_INT_MAX 1 [Append (Some ''a''), Append (Some ''b''), Append (Some ''c''),
                        Append (Some ''d''), Append (Some ''e'')] \<and>
         (0::int) \<le> 3 \<and> 3 < size_l l \<and>
         search h l 3 = walk_next h (list_start l) (nat 3) \<and>
         search h l 3 = walk_prev h (list_end l) (nat (size_l l - 1 - 3))"
proof -
  let ?cs = "[Append (Some ''a''), Append (Some ''b''), Append (Some ''c''),
                        Append (Some ''d''), Append (Some ''e'')]"
  have b: "stays_below_INT_MAX 1 ?cs"
    by (simp add: wrap_simps run_simps)
  have "\<exists>h l. create_run_wrap 1 ?cs = Inr (h, l) \<and> size_l l = 5"
    by (simp add: wrap_simps run_simps)
  then obtain h l where r: "create_run_wrap 1 ?cs = Inr (h, l)" and s: "size_l l = 5" by blast
  have i: "(0::int) \<le> 3" "3 < size_l l" using s by simp_all
  from search_finds_position_below_INT_MAX [OF r b i] r b i s show ?thesis by auto
qed

text \<open>
  C7: \<^verbatim>\<open>set(index, elem)\<close> at \<open>index = size\<close> behaves as \<^verbatim>\<open>append\<close>, after which the size is
  one more and the new element is read back at the old size index. On a fresh container
  with hint 2, \<^verbatim>\<open>set(0, a)\<close> raises the size to 1, yet index 0 reads as the null payload: the
  call is the append into an empty container, which stores through \<^verbatim>\<open>tail\<close>.
\<close>

theorem set_at_size_hint2_not_read_back:
  "observe (create_run 2 [Set (Some ''a'') 0]) = Inr (1, 2, Inr None, Inr None, [Inr None])"
  by (simp add: observe_def contents_def run_simps upt_rec)

text \<open>
  C8: in every reachable state, \<^verbatim>\<open>get(index)\<close> fails its precondition exactly when
  \<open>index < 0\<close> or \<open>index \<ge> size\<close>, and otherwise returns the payload of the node at position
  \<open>index\<close>; \<^verbatim>\<open>first\<close> and \<^verbatim>\<open>last\<close> return the null payload on an empty container without
  failing, and the payloads of the nodes at \<^verbatim>\<open>list_start\<close> and \<^verbatim>\<open>list_end\<close> otherwise.
\<close>

theorem get_first_last_contract:
  assumes r: "create_run hint cs = Inr (h, l)"
  shows "(index < 0 \<or> size_l l \<le> index \<longrightarrow>
            DLinkedList_get h l index = Inl Precondition_violated) \<and>
         (0 \<le> index \<and> index < size_l l \<longrightarrow>
            (\<exists>a n. walk_next h (list_start l) (nat index) = Inr (Some a) \<and> cells h a = Some n \<and>
                   DLinkedList_get h l index = Inr (elem n))) \<and>
         (size_l l = 0 \<longrightarrow> DLinkedList_first h l = Inr None \<and> DLinkedList_last h l = Inr None) \<and>
         (size_l l \<noteq> 0 \<longrightarrow>
            (\<exists>a n. list_start l = Some a \<and> cells h a = Some n \<and>
                   DLinkedList_first h l = Inr (elem n)) \<and>
            (\<exists>a n. list_end l = Some a \<and> cells h a = Some n \<and>
                   DLinkedList_last h l = Inr (elem n)))"
proof -
  from create_run_inv [OF r] obtain ns where inv: "pool_inv ns h l" ..
  then have w: "wired h ns" and ne: "ns \<noteq> []" and ls: "list_start l = Some (ns ! 0)"
    and le: "list_end l = Some (ns ! (nat (size_l l) - 1))"
    and sz: "nat (size_l l) \<le> length ns" "0 \<le> size_l l"
    by (auto simp: pool_inv_def hd_conv_nth)
  have 1: "index < 0 \<or> size_l l \<le> index \<longrightarrow>
            DLinkedList_get h l index = Inl Precondition_violated"
    by (auto simp: DLinkedList_get_def)
  have 2: "0 \<le> index \<and> index < size_l l \<longrightarrow>
            (\<exists>a n. walk_next h (list_start l) (nat index) = Inr (Some a) \<and> cells h a = Some n \<and>
                   DLinkedList_get h l index = Inr (elem n))"
  proof
    assume "0 \<le> index \<and> index < size_l l"
    then have i: "0 \<le> index" "index < size_l l" by simp_all
    have k: "nat index < length ns" using i sz by simp
    have s: "search h l index = Inr (Some (ns ! nat index))" by (rule search_pool [OF inv i])
    have "walk_next h (Some (ns ! 0)) (nat index) = Inr (Some (ns ! (0 + nat index)))"
      using k by (intro walk_next_wired [OF w]) simp
    then have wn: "walk_next h (list_start l) (nat index) = Inr (Some (ns ! nat index))"
      using ls by simp
    from pool_inv_cell [OF inv k] obtain n where n: "cells h (ns ! nat index) = Some n" by metis
    have "DLinkedList_get h l index = Inr (elem n)"
      using i s n by (simp add: DLinkedList_get_def load_def)
    with wn n show "\<exists>a n. walk_next h (list_start l) (nat index) = Inr (Some a) \<and>
        cells h a = Some n \<and> DLinkedList_get h l index = Inr (elem n)" by blast
  qed
  have 3: "size_l l = 0 \<longrightarrow> DLinkedList_first h l = Inr None \<and> DLinkedList_last h l = Inr None"
    by (simp add: DLinkedList_first_def DLinkedList_last_def)
  have 4: "size_l l \<noteq> 0 \<longrightarrow>
            (\<exists>a n. list_start l = Some a \<and> cells h a = Some n \<and>
                   DLinkedList_first h l = Inr (elem n)) \<and>
            (\<exists>a n. list_end l = Some a \<and> cells h a = Some n \<and>
                   DLinkedList_last h l = Inr (elem n))"
  proof
    assume nz: "size_l l \<noteq> 0"
    from ne have "0 < length ns" by simp
    from pool_inv_cell [OF inv this] obtain n where n: "cells h (ns ! 0) = Some n" by metis
    have "nat (size_l l) - 1 < length ns" using sz nz by auto
    from pool_inv_cell [OF inv this] obtain m where
      m: "cells h (ns ! (nat (size_l l) - 1)) = Some m" by metis
    have "DLinkedList_first h l = Inr (elem n)"
      using nz ls n by (simp add: DLinkedList_first_def load_def)
    moreover have "DLinkedList_last h l = Inr (elem m)"
      using nz le m by (simp add: DLinkedList_last_def load_def)
    ultimately show "(\<exists>a n. list_start l = Some a \<and> cells h a = Some n \<and>
                   DLinkedList_first h l = Inr (elem n)) \<and>
            (\<exists>a n. list_end l = Some a \<and> cells h a = Some n \<and>
                   DLinkedList_last h l = Inr (elem n))"
      using ls le n m by blast
  qed
  from 1 2 3 4 show ?thesis by blast
qed

theorem get_first_last_contract_witness:
  "\<exists>h l. create_run 2 [Prepend (Some ''a'')] = Inr (h, l) \<and> size_l l = 1 \<and>
         DLinkedList_get h l 1 = Inl Precondition_violated \<and>
         DLinkedList_get h l (- 1) = Inl Precondition_violated \<and>
         (\<exists>a n. walk_next h (list_start l) (nat 0) = Inr (Some a) \<and> cells h a = Some n \<and>
                DLinkedList_get h l 0 = Inr (elem n)) \<and>
         (\<exists>a n. list_start l = Some a \<and> cells h a = Some n \<and>
                DLinkedList_first h l = Inr (elem n)) \<and>
         (\<exists>a n. list_end l = Some a \<and> cells h a = Some n \<and>
                DLinkedList_last h l = Inr (elem n))"
proof -
  have "\<exists>h l. create_run 2 [Prepend (Some ''a'')] = Inr (h, l) \<and> size_l l = 1"
    by (simp add: run_simps)
  then obtain h l where r: "create_run 2 [Prepend (Some ''a'')] = Inr (h, l)"
    and s: "size_l l = 1" by blast
  from get_first_last_contract [OF r, of 1] get_first_last_contract [OF r, of "- 1"]
    get_first_last_contract [OF r, of 0] r s
  show ?thesis by auto
qed

text \<open>
  C9, as stated: \<^verbatim>\<open>DLinkedList_new(hint)\<close> produces a container for every \<open>hint \<ge> 0\<close>. The
  constructor also asserts \<^verbatim>\<open>hint < INT_MAX\<close>, so the hint \<^verbatim>\<open>INT_MAX\<close> is refused.
\<close>

theorem DLinkedList_new_INT_MAX_refused:
  "DLinkedList_new (heap0 :: string heap) 2147483647 = Inl Precondition_violated"
  by (simp add: DLinkedList_new_def INT_MAX_def)

text \<open>
  C9, amended: for \<open>0 \<le> hint < INT_MAX\<close>, \<^verbatim>\<open>DLinkedList_new(hint)\<close> returns a container of size 0
  and capacity \<open>max(hint, 1)\<close>. The heap then holds exactly that many nodes, all with null
  payload, wired into one chain that starts at \<^verbatim>\<open>front\<close> and ends at \<^verbatim>\<open>tail\<close>, and both
  \<^verbatim>\<open>list_start\<close> and \<^verbatim>\<open>list_end\<close> equal \<^verbatim>\<open>front\<close>. In particular \<^verbatim>\<open>DLinkedList_new(0)\<close> has
  capacity 1 and size 0.
\<close>

theorem DLinkedList_new_pool_chain:
  assumes "0 \<le> hint" "hint < INT_MAX"
  shows "\<exists>h l ns. DLinkedList_new heap0 hint = Inr (h :: 'a heap, l) \<and>
           size_l l = 0 \<and> capacity l = max hint 1 \<and>
           int (length ns) = capacity l \<and> distinct ns \<and> dom (cells h) = set ns \<and>
           wired h ns \<and> front l = Some (hd ns) \<and> tail l = Some (last ns) \<and>
           list_start l = front l \<and> list_end l = front l \<and>
           (\<forall>a\<in>set ns. \<forall>m. cells h a = Some m \<longrightarrow> elem m = None)"
proof -
  let ?n = "nat (max hint 1)"
  let ?ns = "rev [0..<?n]"
  let ?l = "\<lparr>front = Some (?n - 1), tail = Some 0, list_start = Some (?n - 1),
             list_end = Some (?n - 1), capacity = max hint 1, size_l = 0\<rparr>"
  have n: "0 < ?n" by simp
  have new: "DLinkedList_new heap0 hint = Inr (pool_heap ?n :: 'a heap, ?l)"
    by (rule DLinkedList_new_pool [OF assms])
  have ends: "hd ?ns = ?n - 1" "last ?ns = 0"
    using n by (simp_all add: hd_rev last_rev)
  have len: "int (length ?ns) = max hint 1" by (simp add: le_max_iff_disj)
  have dom: "dom (cells (pool_heap ?n :: 'a heap)) = set ?ns"
    by (simp add: dom_pool_heap lessThan_atLeast0)
  have el: "\<forall>a\<in>set ?ns. \<forall>m. cells (pool_heap ?n :: 'a heap) a = Some m \<longrightarrow> elem m = None"
    using elem_pool_heap by blast
  show ?thesis
  proof (intro exI conjI)
    show "DLinkedList_new heap0 hint = Inr (pool_heap ?n :: 'a heap, ?l)" by (rule new)
    show "size_l ?l = 0" by simp
    show "capacity ?l = max hint 1" by simp
    show "int (length ?ns) = capacity ?l" using len by simp
    show "distinct ?ns" by simp
    show "dom (cells (pool_heap ?n :: 'a heap)) = set ?ns" by (rule dom)
    show "wired (pool_heap ?n :: 'a heap) ?ns" by (rule wired_pool_heap)
    show "front ?l = Some (hd ?ns)" using ends by simp
    show "tail ?l = Some (last ?ns)" using ends by simp
    show "list_start ?l = front ?l" by simp
    show "list_end ?l = front ?l" by simp
    show "\<forall>a\<in>set ?ns. \<forall>m. cells (pool_heap ?n :: 'a heap) a = Some m \<longrightarrow> elem m = None"
      by (rule el)
  qed
qed

theorem DLinkedList_new_pool_chain_witness:
  "(0::int) \<le> 0 \<and> (0::int) < INT_MAX \<and>
   (\<exists>h l ns. DLinkedList_new heap0 0 = Inr (h :: string heap, l) \<and>
           size_l l = 0 \<and> capacity l = 1 \<and>
           int (length ns) = capacity l \<and> distinct ns \<and> dom (cells h) = set ns \<and>
           wired h ns \<and> front l = Some (hd ns) \<and> tail l = Some (last ns) \<and>
           list_start l = front l \<and> list_end l = front l \<and>
           (\<forall>a\<in>set ns. \<forall>m. cells h a = Some m \<longrightarrow> elem m = None))"
proof -
  have h: "(0::int) \<le> 0" "(0::int) < INT_MAX" by (simp_all add: INT_MAX_def)
  have c: "max (0::int) 1 = 1" by simp
  from DLinkedList_new_pool_chain [OF h, where ?'a = string, unfolded c] h show ?thesis by blast
qed

text \<open>
  C10: \<^verbatim>\<open>remove\<close>, \<^verbatim>\<open>removehi\<close> and \<^verbatim>\<open>removelo\<close> return the heap and the container they were
  given, whatever the state and the index: no counter, pointer or payload changes.
\<close>

theorem removals_change_nothing:
  "DLinkedList_remove h l index = (h, l) \<and> DLinkedList_removehi h l = (h, l) \<and>
   DLinkedList_removelo h l = (h, l) \<and>
   exec (Remove index) (h, l) = Inr (h, l) \<and> exec RemoveHi (h, l) = Inr (h, l) \<and>
   exec RemoveLo (h, l) = Inr (h, l)"
  by (simp add: DLinkedList_remove_def DLinkedList_removehi_def DLinkedList_removelo_def)

end
